theory Spec2Isabelle
  imports Main "HOL-Library.Word" "HOL-Library.Sublist"
begin

unbundle bit_operations_syntax

section \<open>Inside Secure SafeXcel driver: descriptor rings and request pipeline\<close>

text \<open>
  A shallow embedding of the descriptor-ring engine of
  \<^verbatim>\<open>drivers/crypto/inside-secure\<close> (\<^verbatim>\<open>safexcel_ring.c\<close>, the ring part of
  \<^verbatim>\<open>safexcel.c\<close> and the zero-length path of \<^verbatim>\<open>safexcel_hash.c\<close>).

  Kernel pointers (\<^verbatim>\<open>void *\<close>) are 64-bit addresses, \<^verbatim>\<open>u32\<close> is a 32-bit word.
  Kernel error numbers are kept symbolic: a function returning \<^verbatim>\<open>-EXXX\<close> or
  \<^verbatim>\<open>ERR_PTR(-EXXX)\<close> returns \<open>Inl EXXX\<close>.
\<close>

type_synonym u8 = "8 word"
type_synonym u32 = "32 word"
type_synonym u64 = "64 word"
type_synonym addr = "64 word"

datatype errno = ENOMEM | ENOENT | EIO | EBADMSG | EINVAL

subsection \<open>Constants of \<^verbatim>\<open>safexcel.h\<close>\<close>

definition EIP197_MAX_BATCH_SZ :: int where
  "EIP197_MAX_BATCH_SZ = 65535"

definition EIP197_OWN_POLL_COUNT :: nat where
  "EIP197_OWN_POLL_COUNT = 10"

definition EIP197_OWNERSHIP_MAGIC :: u32 where
  "EIP197_OWNERSHIP_MAGIC = 0xAAAAAAAA"

definition EIP197_HIA_RDR_THRESH_PKT_MODE :: u32 where
  "EIP197_HIA_RDR_THRESH_PKT_MODE = push_bit 23 1"

subsection \<open>Result descriptor error check\<close>

text \<open>
  \<^verbatim>\<open>safexcel_rdesc_check_errors\<close>: \<^verbatim>\<open>error_code\<close> is the 15-bit field of
  \<^verbatim>\<open>struct result_data_desc\<close>. \<open>Inr ()\<close> is the return value 0.
\<close>

definition safexcel_rdesc_check_errors :: "15 word \<Rightarrow> errno + unit" where
  "safexcel_rdesc_check_errors error_code =
     (if error_code = 0 then Inr ()
      else if error_code AND 0x407f \<noteq> 0 then Inl EIO
      else if error_code = push_bit 9 1 then Inl EBADMSG
      else Inl EINVAL)"

subsection \<open>Descriptor rings (\<^verbatim>\<open>safexcel_ring.c\<close>)\<close>

text \<open>
  \<^verbatim>\<open>struct safexcel_desc_ring\<close> (the DMA handle \<^verbatim>\<open>base_dma\<close> is not used by the
  cursor operations and is left out) and the fields of \<^verbatim>\<open>struct safexcel_config\<close>
  that the ring code reads.
\<close>

record safexcel_desc_ring =
  base :: addr
  base_end :: addr
  "write" :: addr
  read :: addr

record safexcel_config =
  rings :: u32
  ring_entries :: u32
  cd_offset :: u32
  rd_offset :: u32
  own_offset :: u32

text \<open>
  \<^verbatim>\<open>safexcel_init_ring_descriptors\<close>, for one ring: \<open>b\<close> is the address returned
  by \<^verbatim>\<open>dmam_alloc_coherent\<close> (\<open>None\<close> when the allocation fails). The product
  \<^verbatim>\<open>offset * (ring_entries - 1)\<close> is computed in \<^verbatim>\<open>u32\<close>.
\<close>

definition init_ring :: "addr option \<Rightarrow> u32 \<Rightarrow> u32 \<Rightarrow> errno + safexcel_desc_ring" where
  "init_ring b offset entries =
     (case b of
        None \<Rightarrow> Inl ENOMEM
      | Some a \<Rightarrow> Inr \<lparr>base = a, base_end = a + ucast (offset * (entries - 1)),
                       write = a, read = a\<rparr>)"

definition safexcel_cdr_next_wptr ::
  "safexcel_config \<Rightarrow> safexcel_desc_ring \<Rightarrow> (errno + addr) \<times> safexcel_desc_ring" where
  "safexcel_cdr_next_wptr cfg ring =
     (let ptr = write ring in
      if write ring = read ring - ucast (cd_offset cfg) \<or>
         (read ring = base ring \<and> write ring = base_end ring)
      then (Inl ENOMEM, ring)
      else if write ring = base_end ring
      then (Inr ptr, ring\<lparr>write := base ring\<rparr>)
      else (Inr ptr, ring\<lparr>write := write ring + ucast (cd_offset cfg)\<rparr>))"

definition safexcel_rdr_next_wptr ::
  "safexcel_config \<Rightarrow> safexcel_desc_ring \<Rightarrow> (errno + addr) \<times> safexcel_desc_ring" where
  "safexcel_rdr_next_wptr cfg ring =
     (let ptr = write ring in
      if write ring = read ring - ucast (rd_offset cfg) \<or>
         (read ring = base ring \<and> write ring = base_end ring)
      then (Inl ENOMEM, ring)
      else if write ring = base_end ring
      then (Inr ptr, ring\<lparr>write := base ring\<rparr>)
      else (Inr ptr, ring\<lparr>write := write ring + ucast (rd_offset cfg)\<rparr>))"

definition safexcel_cdr_next_rptr ::
  "safexcel_config \<Rightarrow> safexcel_desc_ring \<Rightarrow> addr \<times> safexcel_desc_ring" where
  "safexcel_cdr_next_rptr cfg ring =
     (let ptr = read ring in
      if read ring = base_end ring
      then (ptr, ring\<lparr>read := base ring\<rparr>)
      else (ptr, ring\<lparr>read := read ring + ucast (cd_offset cfg)\<rparr>))"

definition safexcel_cdr_rollback_wptr ::
  "safexcel_config \<Rightarrow> safexcel_desc_ring \<Rightarrow> safexcel_desc_ring" where
  "safexcel_cdr_rollback_wptr cfg ring =
     (if write ring = read ring then ring
      else if write ring = base ring then ring\<lparr>write := base_end ring\<rparr>
      else ring\<lparr>write := write ring - ucast (cd_offset cfg)\<rparr>)"

definition safexcel_rdr_rollback_wptr ::
  "safexcel_config \<Rightarrow> safexcel_desc_ring \<Rightarrow> safexcel_desc_ring" where
  "safexcel_rdr_rollback_wptr cfg ring =
     (if write ring = read ring then ring
      else if write ring = base ring then ring\<lparr>write := base_end ring\<rparr>
      else ring\<lparr>write := write ring - ucast (rd_offset cfg)\<rparr>)"

subsection \<open>Result ring memory and the ownership word\<close>

text \<open>
  The device-visible memory of a result ring, as the two views the ring code takes of it:
  the \<^verbatim>\<open>last_seg\<close> bit of the \<^verbatim>\<open>struct safexcel_result_desc\<close> at an address and
  the 32-bit word at an address (the ownership words).
\<close>

record rdr_mem =
  rd_last_seg :: "addr \<Rightarrow> bool"
  word32 :: "addr \<Rightarrow> u32"

definition EIP197_RD_OWN_WORD :: bool where
  "EIP197_RD_OWN_WORD = True"

text \<open>
  The polling loop of \<^verbatim>\<open>safexcel_rdr_next_rptr\<close>:
  \<^verbatim>\<open>while ((--cnt) && (*own != EIP197_OWNERSHIP_MAGIC)) cpu_relax();\<close>
  The device writes the ring while the loop runs, so each load of \<^verbatim>\<open>*own\<close> may see
  another value: \<open>loads k\<close> is the value the \<open>k\<close>-th load returns. The result is the
  final value of \<^verbatim>\<open>cnt\<close> and the number of the load the loop stopped at. The count
  starts at the positive constant \<^verbatim>\<open>EIP197_OWN_POLL_COUNT\<close>, so the first equation is
  never reached from \<^verbatim>\<open>safexcel_rdr_next_rptr\<close>.
\<close>

fun own_poll :: "nat \<Rightarrow> nat \<Rightarrow> (nat \<Rightarrow> u32) \<Rightarrow> nat \<times> nat" where
  "own_poll 0 k loads = (0, k)"
| "own_poll (Suc c) k loads =
     (if c = 0 then (0, k)
      else if loads k \<noteq> EIP197_OWNERSHIP_MAGIC then own_poll c (Suc k) loads
      else (c, k))"

text \<open>
  \<^verbatim>\<open>safexcel_rdr_next_rptr\<close>: \<open>rd\<close> is the caller's cursor \<^verbatim>\<open>*read\<close>, \<open>dev k\<close> the
  ring memory at the time of the \<open>k\<close>-th load of the ownership word. The result is
  the returned pointer or error, the caller's cursor and the memory after the call.
\<close>

definition safexcel_rdr_next_rptr ::
  "safexcel_config \<Rightarrow> safexcel_desc_ring \<Rightarrow> addr \<Rightarrow> (nat \<Rightarrow> rdr_mem) \<Rightarrow>
     (errno + addr) \<times> addr \<times> rdr_mem" where
  "safexcel_rdr_next_rptr cfg ring rd dev =
     (let ptr = rd;
          own = ptr + ucast (own_offset cfg);
          (cnt, k) = (if EIP197_RD_OWN_WORD
                      then own_poll EIP197_OWN_POLL_COUNT 0 (\<lambda>k. word32 (dev k) own)
                      else (1, 0))
      in if EIP197_RD_OWN_WORD \<and> cnt = 0 then (Inl ENOENT, rd, dev k)
         else
           let m = (if EIP197_RD_OWN_WORD
                    then (dev k)\<lparr>word32 := (word32 (dev k))(own := NOT EIP197_OWNERSHIP_MAGIC)\<rparr>
                    else dev k)
           in if ptr = base_end ring then (Inr ptr, base ring, m)
              else (Inr ptr, rd + ucast (rd_offset cfg), m))"

text \<open>
  \<^verbatim>\<open>safexcel_rdr_scan_next\<close>. The loop state is the pair \<^verbatim>\<open>(rdesc, own)\<close>; the loop
  has no bound of its own, so its model is a partial function: \<open>None\<close> is a walk that
  never ends. The ring is passed by reference and not written; the model returns it
  beside the result.
\<close>

partial_function (option) rdr_scan_loop ::
  "safexcel_config \<Rightarrow> safexcel_desc_ring \<Rightarrow> rdr_mem \<Rightarrow> addr \<Rightarrow> addr \<Rightarrow> bool option" where
  "rdr_scan_loop cfg ring m rdesc own =
     (if word32 m own = EIP197_OWNERSHIP_MAGIC
      then (if rd_last_seg m rdesc then Some True
            else if rdesc = base_end ring
            then rdr_scan_loop cfg ring m (base ring) (base ring + ucast (own_offset cfg))
            else rdr_scan_loop cfg ring m (own + 4) (own + ucast (rd_offset cfg)))
      else Some False)"

definition safexcel_rdr_scan_next ::
  "safexcel_config \<Rightarrow> safexcel_desc_ring \<Rightarrow> rdr_mem \<Rightarrow> (bool \<times> safexcel_desc_ring) option" where
  "safexcel_rdr_scan_next cfg ring m =
     map_option (\<lambda>b. (b, ring))
       (rdr_scan_loop cfg ring m (read ring) (read ring + ucast (own_offset cfg)))"

subsection \<open>Ring geometry\<close>

text \<open>
  Slot \<open>i\<close> of a ring with base address \<open>b\<close> and stride \<open>offset\<close>, and a
  ring of \<open>n\<close> slots whose write cursor is at slot \<open>wi\<close> and read cursor at slot
  \<open>ri\<close>. A ring is well formed when it has this shape: the stride is positive,
  there is at least one slot, the \<open>n\<close> slots fit in the address space, and both
  cursors stand on slots.
\<close>

definition slot_addr :: "addr \<Rightarrow> u32 \<Rightarrow> nat \<Rightarrow> addr" where
  "slot_addr b offset i = b + of_nat (unat offset * i)"

definition ring_of :: "addr \<Rightarrow> u32 \<Rightarrow> nat \<Rightarrow> nat \<Rightarrow> nat \<Rightarrow> safexcel_desc_ring" where
  "ring_of b offset n wi ri =
     \<lparr>base = b, base_end = slot_addr b offset (n - 1),
      write = slot_addr b offset wi, read = slot_addr b offset ri\<rparr>"

text \<open>The slot index of a pointer, as \<^verbatim>\<open>safexcel_ring_rdr_rdesc_index\<close> computes it.\<close>

definition ring_index :: "safexcel_desc_ring \<Rightarrow> u32 \<Rightarrow> addr \<Rightarrow> nat" where
  "ring_index ring offset p = unat (p - base ring) div unat offset"

definition ring_wf :: "u32 \<Rightarrow> nat \<Rightarrow> safexcel_desc_ring \<Rightarrow> bool" where
  "ring_wf offset n ring \<longleftrightarrow>
     0 < unat offset \<and> 0 < n \<and> unat offset * n < 2 ^ 64 \<and>
     ring_index ring offset (write ring) < n \<and>
     ring_index ring offset (read ring) < n \<and>
     ring = ring_of (base ring) offset n (ring_index ring offset (write ring))
                    (ring_index ring offset (read ring))"

text \<open>The number of slots from the read cursor forward to the write cursor.\<close>

definition ring_count :: "u32 \<Rightarrow> nat \<Rightarrow> safexcel_desc_ring \<Rightarrow> nat" where
  "ring_count offset n ring =
     (ring_index ring offset (write ring) + n - ring_index ring offset (read ring)) mod n"

subsection \<open>Sequences of ring operations\<close>

datatype ring_kind = CDR | RDR

definition ring_offset :: "safexcel_config \<Rightarrow> ring_kind \<Rightarrow> u32" where
  "ring_offset cfg k = (case k of CDR \<Rightarrow> cd_offset cfg | RDR \<Rightarrow> rd_offset cfg)"

definition next_wptr :: "ring_kind \<Rightarrow> safexcel_config \<Rightarrow> safexcel_desc_ring \<Rightarrow>
    (errno + addr) \<times> safexcel_desc_ring" where
  "next_wptr k = (case k of CDR \<Rightarrow> safexcel_cdr_next_wptr | RDR \<Rightarrow> safexcel_rdr_next_wptr)"

definition rollback_wptr :: "ring_kind \<Rightarrow> safexcel_config \<Rightarrow> safexcel_desc_ring \<Rightarrow>
    safexcel_desc_ring" where
  "rollback_wptr k =
     (case k of CDR \<Rightarrow> safexcel_cdr_rollback_wptr | RDR \<Rightarrow> safexcel_rdr_rollback_wptr)"

text \<open>
  A result ring memory in which every ownership word is set, and the read of a ready
  result slot as \<^verbatim>\<open>safexcel_handle_req_result\<close> does it: the ring's read cursor is
  copied, passed to \<^verbatim>\<open>safexcel_rdr_next_rptr\<close> and stored back.
\<close>

definition ready_mem :: rdr_mem where
  "ready_mem = \<lparr>rd_last_seg = (\<lambda>a. True), word32 = (\<lambda>a. EIP197_OWNERSHIP_MAGIC)\<rparr>"

definition next_rptr :: "ring_kind \<Rightarrow> safexcel_config \<Rightarrow> safexcel_desc_ring \<Rightarrow>
    safexcel_desc_ring" where
  "next_rptr k cfg ring =
     (case k of
        CDR \<Rightarrow> snd (safexcel_cdr_next_rptr cfg ring)
      | RDR \<Rightarrow> ring\<lparr>read := fst (snd (safexcel_rdr_next_rptr cfg ring (read ring)
                                         (\<lambda>k. ready_mem)))\<rparr>)"

text \<open>
  One call of the producer or of the consumer. Beside the ring, the state counts the
  slots that are reserved and not yet read: a successful reservation adds one, a
  rollback that moves the cursor and a read take one away.
\<close>

datatype ring_op = NextWrite | RollbackWrite | NextRead

fun ring_step :: "ring_kind \<Rightarrow> safexcel_config \<Rightarrow> safexcel_desc_ring \<times> nat \<Rightarrow> ring_op \<Rightarrow>
    safexcel_desc_ring \<times> nat" where
  "ring_step k cfg (r, c) NextWrite =
     (case next_wptr k cfg r of
        (Inl e, r') \<Rightarrow> (r', c)
      | (Inr p, r') \<Rightarrow> (r', c + 1))"
| "ring_step k cfg (r, c) RollbackWrite =
     (rollback_wptr k cfg r, if write r = read r then c else c - 1)"
| "ring_step k cfg (r, c) NextRead = (next_rptr k cfg r, c - 1)"

fun ring_run :: "ring_kind \<Rightarrow> safexcel_config \<Rightarrow> safexcel_desc_ring \<times> nat \<Rightarrow> ring_op list \<Rightarrow>
    safexcel_desc_ring \<times> nat" where
  "ring_run k cfg s [] = s"
| "ring_run k cfg s (x # xs) = ring_run k cfg (ring_step k cfg s x) xs"

text \<open>
  The single-reader discipline: the consumer reads a slot only after the producer has
  reserved it (and the device has filled it), that is, only while the count is positive.
\<close>

fun disciplined :: "ring_kind \<Rightarrow> safexcel_config \<Rightarrow> safexcel_desc_ring \<times> nat \<Rightarrow> ring_op list \<Rightarrow>
    bool" where
  "disciplined k cfg s [] = True"
| "disciplined k cfg s (x # xs) =
     ((x = NextRead \<longrightarrow> 0 < snd s) \<and> disciplined k cfg (ring_step k cfg s x) xs)"

text \<open>\<open>n\<close> reservations in a row, \<open>None\<close> when one of them finds the ring full.\<close>

fun reserve_n :: "ring_kind \<Rightarrow> safexcel_config \<Rightarrow> nat \<Rightarrow> safexcel_desc_ring \<Rightarrow>
    safexcel_desc_ring option" where
  "reserve_n k cfg 0 r = Some r"
| "reserve_n k cfg (Suc n) r =
     (case next_wptr k cfg r of
        (Inl e, r') \<Rightarrow> None
      | (Inr p, r') \<Rightarrow> reserve_n k cfg n r')"

text \<open>
  The invariant of a ring and its count of reserved, unread slots: the ring is well
  formed and the count is the distance from the read cursor to the write cursor.
\<close>

definition ring_inv :: "ring_kind \<Rightarrow> safexcel_config \<Rightarrow> nat \<Rightarrow> safexcel_desc_ring \<times> nat \<Rightarrow> bool" where
  "ring_inv k cfg n s \<longleftrightarrow>
     ring_wf (ring_offset cfg k) n (fst s) \<and> snd s = ring_count (ring_offset cfg k) n (fst s)"

text \<open>
  The full condition in the words of the specification: "advancing the write cursor by
  one stride would make it equal to (read cursor - one stride)".
\<close>

definition spec_ring_full :: "u32 \<Rightarrow> safexcel_desc_ring \<Rightarrow> bool" where
  "spec_ring_full offset ring \<longleftrightarrow> write ring + ucast offset = read ring - ucast offset"

subsection \<open>A small configuration for concrete runs\<close>

text \<open>Four slots of 64 bytes at address \<^verbatim>\<open>0x1000\<close>, three rings.\<close>

definition demo_config :: safexcel_config where
  "demo_config =
     \<lparr>rings = 3, ring_entries = 4, cd_offset = 0x40, rd_offset = 0x40, own_offset = 0x3c\<rparr>"

definition demo_ring :: safexcel_desc_ring where
  "demo_ring = \<lparr>base = 0x1000, base_end = 0x10c0, write = 0x1000, read = 0x1000\<rparr>"

definition demo_ops :: "ring_op list" where
  "demo_ops = [NextWrite, NextWrite, NextRead, NextRead, NextWrite, NextWrite]"

text \<open>
  A result ring memory whose ownership word of slot 0 holds \<open>v\<close>, a device that sets
  this word to the magic value before the fourth load, and the memory after a read of
  slot 0 that saw it set.
\<close>

definition demo_mem :: "u32 \<Rightarrow> rdr_mem" where
  "demo_mem v = \<lparr>rd_last_seg = (\<lambda>a. a = 0x1000), word32 = (\<lambda>a. if a = 0x103c then v else 0)\<rparr>"

definition demo_dev :: "nat \<Rightarrow> rdr_mem" where
  "demo_dev k = demo_mem (if k < 3 then 0 else EIP197_OWNERSHIP_MAGIC)"

definition demo_mem_read :: rdr_mem where
  "demo_mem_read = (demo_dev 3)\<lparr>word32 := (word32 (demo_dev 3))
                      (0x1000 + ucast (own_offset demo_config) := NOT EIP197_OWNERSHIP_MAGIC)\<rparr>"

subsection \<open>The walk of \<^verbatim>\<open>safexcel_rdr_scan_next\<close>, in the words of the specification\<close>

text \<open>
  The \<open>j\<close>-th slot forward from the read cursor of a result ring of \<open>n\<close> slots,
  wrapping at the end, and the condition "some slot of the run of ownership-confirmed
  slots that starts at the read cursor is marked as the last segment".
\<close>

definition rdr_slot :: "safexcel_config \<Rightarrow> safexcel_desc_ring \<Rightarrow> nat \<Rightarrow> nat \<Rightarrow> addr" where
  "rdr_slot cfg ring n j =
     slot_addr (base ring) (rd_offset cfg)
       ((ring_index ring (rd_offset cfg) (read ring) + j) mod n)"

definition spec_full_result_ready ::
  "safexcel_config \<Rightarrow> safexcel_desc_ring \<Rightarrow> rdr_mem \<Rightarrow> nat \<Rightarrow> bool" where
  "spec_full_result_ready cfg ring m n \<longleftrightarrow>
     (\<exists>k. (\<forall>j\<le>k. word32 m (rdr_slot cfg ring n j + ucast (own_offset cfg)) =
                      EIP197_OWNERSHIP_MAGIC) \<and>
          rd_last_seg m (rdr_slot cfg ring n k))"

text \<open>
  A result ring memory in which slots 3, 0 and 1 are confirmed and slot 0 is a last
  segment.
\<close>

definition demo_scan_mem :: rdr_mem where
  "demo_scan_mem =
     \<lparr>rd_last_seg = (\<lambda>a. a = 0x1000),
      word32 = (\<lambda>a. if a = 0x10fc \<or> a = 0x103c then EIP197_OWNERSHIP_MAGIC else 0)\<rparr>"

subsection \<open>Ring selection\<close>

text \<open>
  \<^verbatim>\<open>safexcel_select_ring\<close>: \<^verbatim>\<open>atomic_inc_return(&priv->ring_used) % priv->config.rings\<close>.
  The counter is an \<^verbatim>\<open>atomic_t\<close>, a 32-bit integer that wraps; the divisor is a
  \<^verbatim>\<open>u32\<close>, so the incremented value is converted to \<^verbatim>\<open>u32\<close> and the remainder is
  unsigned; the function returns it as an \<^verbatim>\<open>int\<close>. \<open>None\<close> is the division by a
  ring count of zero. The second component is the counter after the call.
\<close>

definition safexcel_select_ring :: "safexcel_config \<Rightarrow> u32 \<Rightarrow> int option \<times> u32" where
  "safexcel_select_ring cfg ring_used =
     (let c = ring_used + 1
      in (if rings cfg = 0 then None else Some (sint (c mod rings cfg)), c))"

text \<open>The results of \<open>n\<close> calls in a row.\<close>

fun select_run :: "safexcel_config \<Rightarrow> nat \<Rightarrow> u32 \<Rightarrow> int option list \<times> u32" where
  "select_run cfg 0 ring_used = ([], ring_used)"
| "select_run cfg (Suc n) ring_used =
     (case safexcel_select_ring cfg ring_used of
        (i, u) \<Rightarrow> (case select_run cfg n u of (is, u') \<Rightarrow> (i # is, u')))"

subsection \<open>The request pipeline of one ring (\<^verbatim>\<open>safexcel.c\<close>)\<close>

text \<open>
  The fields of \<^verbatim>\<open>struct safexcel_ring\<close> that the dequeue and the result handling
  code use beside the descriptor rings and the queue: the in-flight counter
  \<^verbatim>\<open>requests\<close> and \<^verbatim>\<open>thresh_written\<close> (both \<^verbatim>\<open>int\<close>), the \<^verbatim>\<open>busy\<close> flag and
  the saved request and backlog. Requests are handles of an arbitrary type \<open>'r\<close>;
  \<open>None\<close> is the \<^verbatim>\<open>NULL\<close> pointer.
\<close>

record 'r safexcel_ring =
  requests :: int
  thresh_written :: int
  busy :: bool
  req :: "'r option"
  backlog :: "'r option"

text \<open>
  Arithmetic on a C \<^verbatim>\<open>int\<close>. The values are modelled as integers, and every addition
  and subtraction on a variable of type \<^verbatim>\<open>int\<close> wraps around to 32 bits in two's
  complement, as it does in the kernel, which is built with \<^verbatim>\<open>-fno-strict-overflow\<close>.
  \<open>ulong\<close> is the conversion of an \<^verbatim>\<open>int\<close> to \<^verbatim>\<open>unsigned long\<close> (64 bits), which
  C applies to an \<^verbatim>\<open>int\<close> that is compared with an \<^verbatim>\<open>unsigned long\<close>; with an
  \<^verbatim>\<open>unsigned long\<close> of 32 bits the comparison below has the same result.
\<close>

definition int32 :: "int \<Rightarrow> int" where
  "int32 x = (x + 2 ^ 31) mod 2 ^ 32 - 2 ^ 31"

definition ulong :: "int \<Rightarrow> int" where
  "ulong x = x mod 2 ^ 64"

text \<open>
  What a run does to the outside, in program order: register writes of this ring
  (\<^verbatim>\<open>writel\<close>), calls of the callbacks with what they returned, and the two updates
  of the in-flight counter.
\<close>

datatype reg = RDR_THRESH | CDR_PREP_COUNT | RDR_PREP_COUNT | RDR_PROC_COUNT | RDR_STAT

datatype 'r event =
    Writel u32 reg
  | SendCall 'r int int int
  | BacklogComplete 'r
  | RequestsAdd int
  | HandleResult 'r int bool int
  | ReqComplete 'r int
  | RequestsSub int

definition EIP197_AVOID_DEV_READ :: bool where
  "EIP197_AVOID_DEV_READ = True"

definition EIP197_xDR_THRESH :: u32 where
  "EIP197_xDR_THRESH = push_bit 4 1"

definition EIP197_xDR_PROC_xD_PKT_MASK :: int where
  "EIP197_xDR_PROC_xD_PKT_MASK = 0x7f"

definition EIP197_xDR_PROC_xD_PKT :: "int \<Rightarrow> u32" where
  "EIP197_xDR_PROC_xD_PKT n = push_bit 24 (word_of_int n)"

definition EIP197_HIA_RDR_THRESH_PROC_PKT :: "int \<Rightarrow> u32" where
  "EIP197_HIA_RDR_THRESH_PROC_PKT n = word_of_int n"

text \<open>
  \<^verbatim>\<open>safexcel_try_push_requests\<close>: \<^verbatim>\<open>min_t(int, requests, EIP197_MAX_BATCH_SZ)\<close> is
  written to the threshold register, and remembered when the ring is not busy.
\<close>

definition safexcel_try_push_requests ::
  "'r safexcel_ring \<Rightarrow> 'r safexcel_ring \<times> 'r event list" where
  "safexcel_try_push_requests rg =
     (let coal = min (requests rg) EIP197_MAX_BATCH_SZ;
          ev = [Writel (EIP197_HIA_RDR_THRESH_PKT_MODE OR EIP197_HIA_RDR_THRESH_PROC_PKT coal)
                  RDR_THRESH]
      in if EIP197_AVOID_DEV_READ \<and> \<not> busy rg
         then (rg\<lparr>thresh_written := coal\<rparr>, ev)
         else (rg, ev))"

text \<open>
  The loop of \<^verbatim>\<open>safexcel_dequeue\<close>. \<open>send\<close> is the request's \<^verbatim>\<open>send\<close> callback: from
  a request and the state \<open>'s\<close> of the descriptor rings it gives the return value and
  the numbers of command and result descriptors, and the new state. The queue is the
  list of what \<^verbatim>\<open>crypto_get_backlog\<close> and \<^verbatim>\<open>crypto_dequeue_request\<close> return, call
  after call; when it is empty \<^verbatim>\<open>crypto_dequeue_request\<close> returns \<^verbatim>\<open>NULL\<close>. The
  loop is entered at \<open>dequeue_handle_req\<close> (the label \<^verbatim>\<open>handle_req\<close>) when a request
  was saved by an earlier run, and at \<open>dequeue_next\<close> otherwise. The accumulator holds
  \<^verbatim>\<open>nreq\<close>, \<^verbatim>\<open>cdesc\<close>, \<^verbatim>\<open>rdesc\<close> and the events so far. The result starts with the
  request and backlog to save in the ring (\<^verbatim>\<open>request_failed\<close>), or \<open>None\<close> when the
  queue was drained.
\<close>

type_synonym 'r dq_acc = "int \<times> int \<times> int \<times> 'r event list"

function dequeue_next ::
    "('r \<Rightarrow> 's \<Rightarrow> (int \<times> int \<times> int) \<times> 's) \<Rightarrow> ('r option \<times> 'r) list \<Rightarrow> 's \<Rightarrow> 'r dq_acc \<Rightarrow>
       ('r \<times> 'r option) option \<times> ('r option \<times> 'r) list \<times> 's \<times> 'r dq_acc"
  and dequeue_handle_req ::
    "('r \<Rightarrow> 's \<Rightarrow> (int \<times> int \<times> int) \<times> 's) \<Rightarrow> 'r \<Rightarrow> 'r option \<Rightarrow> ('r option \<times> 'r) list \<Rightarrow> 's \<Rightarrow>
       'r dq_acc \<Rightarrow> ('r \<times> 'r option) option \<times> ('r option \<times> 'r) list \<times> 's \<times> 'r dq_acc"
  where
  "dequeue_next send [] s acc = (None, [], s, acc)"
| "dequeue_next send ((bl, r) # q) s acc = dequeue_handle_req send r bl q s acc"
| "dequeue_handle_req send r bl q s (nreq, cdesc, rdesc, ev) =
     (case send r s of
        ((ret, commands, results), s') \<Rightarrow>
          if ret \<noteq> 0
          then (Some (r, bl), q, s', (nreq, cdesc, rdesc, ev @ [SendCall r ret commands results]))
          else
            let ev' = ev @ [SendCall r ret commands results] @
                      (case bl of Some b \<Rightarrow> [BacklogComplete b] | None \<Rightarrow> [])
            in if commands = 0 \<and> results = 0
               then dequeue_next send q s' (nreq, cdesc, rdesc, ev')
               else dequeue_next send q s'
                      (int32 (nreq + 1), int32 (cdesc + commands), int32 (rdesc + results), ev'))"
  by pat_completeness auto
termination
  by (relation "measure (\<lambda>x. case x of
        Inl (send, q, s, acc) \<Rightarrow> 2 * length q
      | Inr (send, r, bl, q, s, acc) \<Rightarrow> 2 * length q + 1)") auto

text \<open>
  \<^verbatim>\<open>safexcel_dequeue\<close> in two parts. \<open>dequeue_requests\<close> is the function up to the
  label \<^verbatim>\<open>finalize\<close>: it disables the threshold interrupt, runs the loop from the saved
  request if there is one, and stores the request and backlog to resume with. Its
  result is the ring, the rest of the queue, the state of the descriptor rings,
  \<^verbatim>\<open>nreq\<close>, \<^verbatim>\<open>cdesc\<close>, \<^verbatim>\<open>rdesc\<close> and the events. \<open>dequeue_finalize\<close> is the rest:
  the command descriptors are published, the in-flight counter is incremented under the
  ring lock, the result descriptors are published and the threshold is programmed.
\<close>

definition dequeue_requests ::
  "('r \<Rightarrow> 's \<Rightarrow> (int \<times> int \<times> int) \<times> 's) \<Rightarrow> 'r safexcel_ring \<Rightarrow> ('r option \<times> 'r) list \<Rightarrow> 's \<Rightarrow>
     'r safexcel_ring \<times> ('r option \<times> 'r) list \<times> 's \<times> 'r dq_acc" where
  "dequeue_requests send rg q s =
     (let ev0 = [Writel EIP197_HIA_RDR_THRESH_PKT_MODE RDR_THRESH]
      in case (case req rg of
                 Some r \<Rightarrow> dequeue_handle_req send r (backlog rg) q s (0, 0, 0, ev0)
               | None \<Rightarrow> dequeue_next send q s (0, 0, 0, ev0)) of
           (Some (r, bl), q', s', acc) \<Rightarrow> (rg\<lparr>req := Some r, backlog := bl\<rparr>, q', s', acc)
         | (None, q', s', acc) \<Rightarrow> (rg\<lparr>req := None, backlog := None\<rparr>, q', s', acc))"

definition dequeue_finalize ::
  "safexcel_config \<Rightarrow> 'r safexcel_ring \<Rightarrow> 'r dq_acc \<Rightarrow> 'r safexcel_ring \<times> 'r event list" where
  "dequeue_finalize cfg rg acc =
     (case acc of
        (nreq, cdesc, rdesc, ev1) \<Rightarrow>
          let ev2 = ev1 @ [Writel (word_of_int cdesc * cd_offset cfg) CDR_PREP_COUNT];
              rg2 = rg\<lparr>requests := int32 (requests rg + nreq)\<rparr>;
              ev3 = ev2 @ [RequestsAdd nreq];
              ev4 = ev3 @ [Writel (word_of_int rdesc * rd_offset cfg) RDR_PREP_COUNT]
          in if requests rg2 \<noteq> 0
             then (case safexcel_try_push_requests rg2 of
                     (rg3, ev5) \<Rightarrow> (rg3\<lparr>busy := True\<rparr>, ev4 @ ev5))
             else (rg2, ev4))"

definition safexcel_dequeue ::
  "safexcel_config \<Rightarrow> ('r \<Rightarrow> 's \<Rightarrow> (int \<times> int \<times> int) \<times> 's) \<Rightarrow> 'r safexcel_ring \<Rightarrow>
     ('r option \<times> 'r) list \<Rightarrow> 's \<Rightarrow>
     'r safexcel_ring \<times> ('r option \<times> 'r) list \<times> 's \<times> 'r event list" where
  "safexcel_dequeue cfg send rg q s =
     (case dequeue_requests send rg q s of
        (rg1, q', s', acc) \<Rightarrow>
          (case dequeue_finalize cfg rg1 acc of (rg', ev) \<Rightarrow> (rg', q', s', ev)))"

text \<open>
  The loops of \<^verbatim>\<open>safexcel_handle_result_descriptor\<close>. \<open>results\<close> is the list of what
  the calls of \<^verbatim>\<open>handle_result\<close> return, each with the request that
  \<^verbatim>\<open>safexcel_rdr_req_get\<close> found: \<^verbatim>\<open>ndesc\<close>, \<^verbatim>\<open>should_complete\<close> and \<^verbatim>\<open>ret\<close>. When the
  list is used up the device has written no further result, and the callback finds the
  ownership word unset: it reports nothing consumed and nothing to complete. \<open>scans\<close>
  is the list of what the calls of \<^verbatim>\<open>safexcel_rdr_scan_next\<close> return, false when used
  up. \<open>hrd_loop\<close> is the test of \<^verbatim>\<open>while (nreq)\<close> with the scan that follows the loop,
  \<open>hrd_one_more_req\<close> the loop body from the label \<^verbatim>\<open>one_more_req\<close>. The result is
  \<^verbatim>\<open>handled\<close>, \<^verbatim>\<open>tot_descs\<close> and the events.
\<close>

function hrd_loop ::
    "int \<Rightarrow> int \<Rightarrow> int \<Rightarrow> ('r \<times> int \<times> bool \<times> int) list \<Rightarrow> bool list \<Rightarrow> 'r event list \<Rightarrow>
       int \<times> int \<times> 'r event list"
  and hrd_one_more_req ::
    "int \<Rightarrow> int \<Rightarrow> int \<Rightarrow> ('r \<times> int \<times> bool \<times> int) list \<Rightarrow> bool list \<Rightarrow> 'r event list \<Rightarrow>
       int \<times> int \<times> 'r event list"
  where
  "hrd_loop nreq handled tot_descs results scans ev =
     (if nreq \<noteq> 0 then hrd_one_more_req nreq handled tot_descs results scans ev
      else (case scans of
              [] \<Rightarrow> (handled, tot_descs, ev)
            | found # scans' \<Rightarrow>
                if EIP197_RD_OWN_WORD \<and> found
                then hrd_one_more_req 1 (int32 (handled + 1)) tot_descs results scans' ev
                else (handled, tot_descs, ev)))"
| "hrd_one_more_req nreq handled tot_descs [] scans ev =
     (int32 (handled - nreq), tot_descs, ev)"
| "hrd_one_more_req nreq handled tot_descs ((r, ndesc, should_complete, ret) # results) scans ev =
     (let ev' = ev @ [HandleResult r ndesc should_complete ret]
      in if should_complete
         then hrd_loop (int32 (nreq - 1)) handled (int32 (tot_descs + ndesc)) results scans
                (ev' @ [ReqComplete r ret])
         else if EIP197_RD_OWN_WORD \<and> ndesc = 0
         then (int32 (handled - nreq), tot_descs, ev')
         else hrd_loop (int32 (nreq - 1)) handled (int32 (tot_descs + ndesc)) results scans ev')"
  by pat_completeness auto
termination
  by (relation "measure (\<lambda>x. case x of
        Inl (nreq, handled, tot, results, scans, ev) \<Rightarrow> 2 * (length results + length scans) + 1
      | Inr (nreq, handled, tot, results, scans, ev) \<Rightarrow> 2 * (length results + length scans))")
     auto

text \<open>
  The acknowledge loop: \<^verbatim>\<open>while (i > EIP197_xDR_PROC_xD_PKT_MASK)\<close>. The mask is an
  \<^verbatim>\<open>unsigned long\<close>, so the \<^verbatim>\<open>int i\<close> is converted and compared unsigned: a
  negative \<^verbatim>\<open>i\<close> is above the mask. The result is the final \<^verbatim>\<open>i\<close> and the register
  writes.
\<close>

function proc_ack_loop :: "int \<Rightarrow> 'r event list \<Rightarrow> int \<times> 'r event list" where
  "proc_ack_loop i ev =
     (if ulong i > EIP197_xDR_PROC_xD_PKT_MASK
      then proc_ack_loop (int32 (i - EIP197_xDR_PROC_xD_PKT_MASK))
             (ev @ [Writel (EIP197_xDR_PROC_xD_PKT EIP197_xDR_PROC_xD_PKT_MASK) RDR_PROC_COUNT])
      else (i, ev))"
  by pat_completeness auto
termination
proof (relation "measure (\<lambda>(i, ev). nat (i mod 2 ^ 32) +
                   (if - (2 ^ 31) \<le> i \<and> i < 2 ^ 31 then 0 else 2 ^ 32))")
  show "wf (measure (\<lambda>(i, ev :: 'r event list). nat (i mod 2 ^ 32) +
                   (if - (2 ^ 31) \<le> i \<and> i < 2 ^ 31 then 0 else 2 ^ 32)))"
    by simp
next
  fix i :: int and ev :: "'r event list"
  assume "EIP197_xDR_PROC_xD_PKT_MASK < ulong i"
  then have a: "127 < ulong i" by (simp only: EIP197_xDR_PROC_xD_PKT_MASK_def)
  define j where "j = int32 (i - 127)"
  have jr: "- (2 ^ 31) \<le> j \<and> j < 2 ^ 31" unfolding j_def int32_def by simp
  have "j mod 2 ^ 32 = ((i - 127 + 2 ^ 31) mod 2 ^ 32 - 2 ^ 31 mod 2 ^ 32) mod 2 ^ 32"
    unfolding j_def int32_def by (simp only: mod_diff_right_eq)
  also have "\<dots> = (i - 127 + 2 ^ 31 - 2 ^ 31) mod 2 ^ 32"
    by (simp only: mod_diff_eq)
  finally have jm: "j mod 2 ^ 32 = (i - 127) mod 2 ^ 32" by simp
  have lt: "j mod 2 ^ 32 < 2 ^ 32" by simp
  have b: "nat (j mod 2 ^ 32) <
        nat (i mod 2 ^ 32) + (if - (2 ^ 31) \<le> i \<and> i < 2 ^ 31 then 0 else 2 ^ 32)"
  proof (cases "- (2 ^ 31) \<le> i \<and> i < 2 ^ 31")
    case False
    have "nat (j mod 2 ^ 32) < 2 ^ 32" using lt by simp
    then have "nat (j mod 2 ^ 32) < nat (i mod 2 ^ 32) + 2 ^ 32" by simp
    then show ?thesis by (simp only: False if_False)
  next
    case True
    have big: "127 < i mod 2 ^ 32"
    proof (cases "i < 0")
      case neg: True
      have "i mod 2 ^ 32 = (i + 2 ^ 32) mod 2 ^ 32" by simp
      also have "\<dots> = i + 2 ^ 32" using True neg by (intro mod_pos_pos_trivial) simp_all
      finally show ?thesis using True by simp
    next
      case False
      then have "ulong i = i" "i mod 2 ^ 32 = i" unfolding ulong_def using True by simp_all
      then show ?thesis using a by simp
    qed
    have "(i - 127) mod 2 ^ 32 = (i mod 2 ^ 32 - 127) mod 2 ^ 32"
      by (simp only: mod_diff_left_eq)
    also have "\<dots> = i mod 2 ^ 32 - 127"
    proof (rule mod_pos_pos_trivial)
      show "0 \<le> i mod 2 ^ 32 - 127" using big by simp
      have "i mod 2 ^ 32 < 2 ^ 32" by simp
      then show "i mod 2 ^ 32 - 127 < 2 ^ 32" by linarith
    qed
    finally have "j mod 2 ^ 32 = i mod 2 ^ 32 - 127" unfolding jm .
    then have "nat (j mod 2 ^ 32) < nat (i mod 2 ^ 32) + 0" using big by simp
    then show ?thesis by (simp only: True if_True)
  qed
  show "((int32 (i - EIP197_xDR_PROC_xD_PKT_MASK),
          ev @ [Writel (EIP197_xDR_PROC_xD_PKT EIP197_xDR_PROC_xD_PKT_MASK) RDR_PROC_COUNT]),
         (i, ev)) \<in> measure (\<lambda>(i, ev). nat (i mod 2 ^ 32) +
                   (if - (2 ^ 31) \<le> i \<and> i < 2 ^ 31 then 0 else 2 ^ 32))"
    using b jr unfolding j_def EIP197_xDR_PROC_xD_PKT_MASK_def by simp
qed

text \<open>
  \<^verbatim>\<open>safexcel_handle_result_descriptor\<close> in two parts, with
  \<^verbatim>\<open>EIP197_AVOID_DEV_READ\<close> set as it is in \<^verbatim>\<open>safexcel.h\<close>. \<open>stat\<close> is the value
  read from the status register. \<open>handle_results\<close> is the function up to the label
  \<^verbatim>\<open>no_thresh_irq\<close>: the results are handled and acknowledged; its result is
  \<^verbatim>\<open>handled\<close> and the events. \<open>handle_results_finish\<close> is the rest, under the ring
  lock. The \<^verbatim>\<open>dev_err\<close> message on an error status changes nothing and is left out.
\<close>

definition handle_results ::
  "safexcel_config \<Rightarrow> 'r safexcel_ring \<Rightarrow> u32 \<Rightarrow> ('r \<times> int \<times> bool \<times> int) list \<Rightarrow> bool list \<Rightarrow>
     int \<times> 'r event list" where
  "handle_results cfg rg stat results scans =
     (if EIP197_AVOID_DEV_READ \<and> stat AND EIP197_xDR_THRESH = 0 then (0, [])
      else
        let nreq = thresh_written rg
        in case hrd_loop nreq nreq 0 results scans [] of
             (handled, tot_descs, ev1) \<Rightarrow>
               if handled \<noteq> 0
               then (case proc_ack_loop handled ev1 of
                       (i, ev) \<Rightarrow>
                         (handled,
                          ev @ [Writel (EIP197_xDR_PROC_xD_PKT i OR
                                        word_of_int tot_descs * rd_offset cfg)
                                  RDR_PROC_COUNT]))
               else (handled, ev1))"

definition handle_results_finish ::
  "'r safexcel_ring \<Rightarrow> int \<Rightarrow> 'r event list \<Rightarrow> 'r safexcel_ring \<times> 'r event list" where
  "handle_results_finish rg handled ev2 =
     (let rg1 = rg\<lparr>requests := int32 (requests rg - handled), busy := False\<rparr>;
          ev3 = ev2 @ [RequestsSub handled, Writel 0xff RDR_STAT]
      in if requests rg1 \<noteq> 0
         then (case safexcel_try_push_requests rg1 of
                 (rg2, ev4) \<Rightarrow> (rg2\<lparr>busy := True\<rparr>, ev3 @ ev4))
         else (rg1, ev3))"

definition safexcel_handle_result_descriptor ::
  "safexcel_config \<Rightarrow> 'r safexcel_ring \<Rightarrow> u32 \<Rightarrow> ('r \<times> int \<times> bool \<times> int) list \<Rightarrow> bool list \<Rightarrow>
     'r safexcel_ring \<times> 'r event list" where
  "safexcel_handle_result_descriptor cfg rg stat results scans =
     (case handle_results cfg rg stat results scans of
        (handled, ev2) \<Rightarrow> handle_results_finish rg handled ev2)"

text \<open>The value that \<^verbatim>\<open>safexcel_try_push_requests\<close> writes for a counter \<open>n\<close>.\<close>

definition thresh_value :: "int \<Rightarrow> u32" where
  "thresh_value n =
     EIP197_HIA_RDR_THRESH_PKT_MODE OR word_of_int (min n EIP197_MAX_BATCH_SZ)"

subsection \<open>Reading a trace\<close>

text \<open>
  The requests passed to \<^verbatim>\<open>send\<close>, in order; the calls of \<^verbatim>\<open>send\<close> that admitted a
  request to the engine (return value 0 and at least one descriptor: the calls for which
  \<^verbatim>\<open>safexcel_dequeue\<close> counts \<^verbatim>\<open>nreq++\<close>); the calls of \<^verbatim>\<open>handle_result\<close> that
  handled a result (the callback completed the request or consumed descriptors: the calls
  that \<^verbatim>\<open>safexcel_handle_result_descriptor\<close> counts in \<^verbatim>\<open>handled\<close>).
\<close>

fun sent :: "'r event list \<Rightarrow> 'r list" where
  "sent [] = []"
| "sent (SendCall r ret commands results # t) = r # sent t"
| "sent (e # t) = sent t"

fun admits :: "'r event \<Rightarrow> bool" where
  "admits (SendCall r ret commands results) \<longleftrightarrow> ret = 0 \<and> (commands \<noteq> 0 \<or> results \<noteq> 0)"
| "admits e \<longleftrightarrow> False"

fun handles :: "'r event \<Rightarrow> bool" where
  "handles (HandleResult r ndesc should_complete ret) \<longleftrightarrow> should_complete \<or> ndesc \<noteq> 0"
| "handles e \<longleftrightarrow> False"

definition admitted :: "'r event list \<Rightarrow> int" where
  "admitted t = int (length (filter admits t))"

definition completed :: "'r event list \<Rightarrow> int" where
  "completed t = int (length (filter handles t))"

text \<open>
  The in-flight counter \<^verbatim>\<open>ring->requests\<close> along a trace, from its value at the start
  of the trace: the counter changes with \<^verbatim>\<open>requests += nreq\<close> and
  \<^verbatim>\<open>requests -= handled\<close> only, both under the ring lock and both with the wrap-around
  of an \<^verbatim>\<open>int\<close>.
\<close>

fun counter_step :: "int \<Rightarrow> 'r event \<Rightarrow> int" where
  "counter_step c (RequestsAdd n) = int32 (c + n)"
| "counter_step c (RequestsSub n) = int32 (c - n)"
| "counter_step c (Writel v rg) = c"
| "counter_step c (SendCall r ret commands results) = c"
| "counter_step c (BacklogComplete r) = c"
| "counter_step c (HandleResult r ndesc should_complete ret) = c"
| "counter_step c (ReqComplete r ret) = c"

definition counter_after :: "int \<Rightarrow> 'r event list \<Rightarrow> int" where
  "counter_after c0 t = foldl counter_step c0 t"

text \<open>
  What the device and the callbacks have seen along a trace, read from the calls and the
  register writes alone and not from what the driver adds to its counter. The events that
  mark a point of the trace are the two updates of the counter and the write of the RDR
  prepared count, which publishes the result descriptors of the admitted requests to the
  device. \<open>tally count mark t\<close> is the number of events with \<open>count\<close> before the last
  event with \<open>mark\<close> in \<open>t\<close>; the state of the count is the number of events since the
  last mark and the number before it.
\<close>

fun counter_add :: "'r event \<Rightarrow> bool" where
  "counter_add (RequestsAdd n) \<longleftrightarrow> True"
| "counter_add e \<longleftrightarrow> False"

fun counter_sub :: "'r event \<Rightarrow> bool" where
  "counter_sub (RequestsSub n) \<longleftrightarrow> True"
| "counter_sub e \<longleftrightarrow> False"

fun publishes :: "'r event \<Rightarrow> bool" where
  "publishes (Writel v rg) \<longleftrightarrow> rg = RDR_PREP_COUNT"
| "publishes e \<longleftrightarrow> False"

fun tally_step ::
  "('a \<Rightarrow> bool) \<Rightarrow> ('a \<Rightarrow> bool) \<Rightarrow> int \<times> int \<Rightarrow> 'a \<Rightarrow> int \<times> int" where
  "tally_step count mark (pending, settled) e =
     (if mark e then (0, settled + pending)
      else if count e then (pending + 1, settled)
      else (pending, settled))"

definition tally :: "('a \<Rightarrow> bool) \<Rightarrow> ('a \<Rightarrow> bool) \<Rightarrow> 'a list \<Rightarrow> int" where
  "tally count mark t = snd (foldl (tally_step count mark) (0, 0) t)"

text \<open>
  The admitted requests that the counter has counted (those before the last
  \<^verbatim>\<open>requests += nreq\<close>); the admitted requests whose result descriptors are published
  to the device, so that the device may complete them; and the handled results that the
  counter has let go (those before the last \<^verbatim>\<open>requests -= handled\<close>).
\<close>

definition counted :: "'r event list \<Rightarrow> int" where
  "counted t = tally admits counter_add t"

definition published :: "'r event list \<Rightarrow> int" where
  "published t = tally admits publishes t"

definition released :: "'r event list \<Rightarrow> int" where
  "released t = tally handles counter_sub t"

text \<open>
  The two numbers that the specification speaks of, from \<open>c0\<close> requests in flight at the
  start, all of them published: the number of requests in flight as the counter should
  hold it, and the number of outstanding results, those that the device may complete or
  has completed and that are not handled yet.
\<close>

definition in_flight :: "int \<Rightarrow> 'r event list \<Rightarrow> int" where
  "in_flight c0 t = c0 + counted t - released t"

definition outstanding :: "int \<Rightarrow> 'r event list \<Rightarrow> int" where
  "outstanding c0 t = c0 + published t - completed t"

text \<open>The events of one run of each engine.\<close>

definition dequeue_events ::
  "safexcel_config \<times> ('r \<Rightarrow> 's \<Rightarrow> (int \<times> int \<times> int) \<times> 's) \<times> 'r safexcel_ring \<times>
     ('r option \<times> 'r) list \<times> 's \<Rightarrow> 'r event list" where
  "dequeue_events run =
     (case run of (cfg, send, rg, q, s) \<Rightarrow> snd (snd (snd (safexcel_dequeue cfg send rg q s))))"

definition completion_events ::
  "safexcel_config \<times> 'r safexcel_ring \<times> u32 \<times> ('r \<times> int \<times> bool \<times> int) list \<times> bool list \<Rightarrow>
     'r event list" where
  "completion_events run =
     (case run of (cfg, rg, stat, results, scans) \<Rightarrow>
        snd (safexcel_handle_result_descriptor cfg rg stat results scans))"

text \<open>
  A \<^verbatim>\<open>send\<close> callback over the number of slots in use that fills a ring of four slots
  and then fails with \<^verbatim>\<open>-ENOMEM\<close> (\<open>-12\<close>), one that always fails with \<^verbatim>\<open>-EINVAL\<close>
  (\<open>-22\<close>), and a ring with nothing in flight.
\<close>

definition demo_send :: "nat \<Rightarrow> nat \<Rightarrow> (int \<times> int \<times> int) \<times> nat" where
  "demo_send r s = (if s < 3 then ((0, 1, 1), s + 1) else ((- 12, 0, 0), s))"

definition demo_send_einval :: "nat \<Rightarrow> nat \<Rightarrow> (int \<times> int \<times> int) \<times> nat" where
  "demo_send_einval r s = ((- 22, 0, 0), s)"

definition idle_ring :: "nat safexcel_ring" where
  "idle_ring = \<lparr>requests = 0, thresh_written = 0, busy = False, req = None, backlog = None\<rparr>"

subsection \<open>What the dequeue loop guarantees\<close>

text \<open>
  The events of the callbacks; the request and backlog that a ring holds for the next
  run, as one queue entry; and the relation between the entries a loop starts with, its
  accumulator and its result: the entries are the handled ones, then the saved one, then
  the rest of the queue; the loop adds callback events only, one \<^verbatim>\<open>send\<close> for each
  handled and for the saved entry; \<^verbatim>\<open>nreq\<close> grows by the number of admitted
  requests, as an \<^verbatim>\<open>int\<close>; a request whose \<^verbatim>\<open>send\<close> failed is the saved one; and the queue is empty
  when nothing is saved.
\<close>

fun call_event :: "'r event \<Rightarrow> bool" where
  "call_event (SendCall r ret commands results) \<longleftrightarrow> True"
| "call_event (BacklogComplete r) \<longleftrightarrow> True"
| "call_event e \<longleftrightarrow> False"

definition stalled :: "'r safexcel_ring \<Rightarrow> ('r option \<times> 'r) list" where
  "stalled rg = (case req rg of Some r \<Rightarrow> [(backlog rg, r)] | None \<Rightarrow> [])"

definition saved_entry :: "('r \<times> 'r option) option \<Rightarrow> ('r option \<times> 'r) list" where
  "saved_entry saved = (case saved of Some (r, bl) \<Rightarrow> [(bl, r)] | None \<Rightarrow> [])"

definition deq_post ::
  "('r option \<times> 'r) list \<Rightarrow> 'r dq_acc \<Rightarrow>
     ('r \<times> 'r option) option \<times> ('r option \<times> 'r) list \<times> 's \<times> 'r dq_acc \<Rightarrow> bool" where
  "deq_post entries acc res \<longleftrightarrow>
     (case (acc, res) of
        ((n, c, d, ev), (saved, q', s', n', c', d', ev')) \<Rightarrow>
          \<exists>done evs.
            entries = done @ saved_entry saved @ q' \<and>
            ev' = ev @ evs \<and>
            (\<forall>e\<in>set evs. call_event e) \<and>
            sent evs = map snd done @ map snd (saved_entry saved) \<and>
            n' = (if admitted evs = 0 then n else int32 (n + admitted evs)) \<and>
            (\<forall>r ret cm rs. SendCall r ret cm rs \<in> set evs \<and> ret \<noteq> 0 \<longrightarrow>
                 (\<exists>bl. saved = Some (r, bl))) \<and>
            (saved = None \<longrightarrow> q' = []))"

text \<open>A queue of five requests, and the ring after a run on it that stopped at the fourth.\<close>

definition demo_queue :: "(nat option \<times> nat) list" where
  "demo_queue = [(None, 1), (None, 2), (None, 3), (Some 9, 4), (None, 5)]"

definition demo_stalled_ring :: "nat safexcel_ring" where
  "demo_stalled_ring =
     \<lparr>requests = 3, thresh_written = 3, busy = True, req = Some 4, backlog = Some 9\<rparr>"

subsection \<open>The final step of a hash request\<close>

text \<open>The values of \<^verbatim>\<open>ctx->alg\<close> for the hash algorithms (\<^verbatim>\<open>safexcel.h\<close>).\<close>

definition CONTEXT_CONTROL_CRYPTO_ALG_MD5 :: u32 where
  "CONTEXT_CONTROL_CRYPTO_ALG_MD5 = push_bit 23 0x0"

definition CONTEXT_CONTROL_CRYPTO_ALG_SHA1 :: u32 where
  "CONTEXT_CONTROL_CRYPTO_ALG_SHA1 = push_bit 23 0x2"

definition CONTEXT_CONTROL_CRYPTO_ALG_SHA224 :: u32 where
  "CONTEXT_CONTROL_CRYPTO_ALG_SHA224 = push_bit 23 0x4"

definition CONTEXT_CONTROL_CRYPTO_ALG_SHA256 :: u32 where
  "CONTEXT_CONTROL_CRYPTO_ALG_SHA256 = push_bit 23 0x3"

definition CONTEXT_CONTROL_CRYPTO_ALG_SHA384 :: u32 where
  "CONTEXT_CONTROL_CRYPTO_ALG_SHA384 = push_bit 23 0x6"

definition CONTEXT_CONTROL_CRYPTO_ALG_SHA512 :: u32 where
  "CONTEXT_CONTROL_CRYPTO_ALG_SHA512 = push_bit 23 0x5"

text \<open>
  The fields of \<^verbatim>\<open>struct safexcel_ahash_req\<close> and of \<^verbatim>\<open>struct ahash_request\<close> that
  \<^verbatim>\<open>safexcel_ahash_final\<close> reads or writes: the two flags, the 128-bit byte count
  \<^verbatim>\<open>len[0]\<close>, \<^verbatim>\<open>len[1]\<close>, the length \<^verbatim>\<open>nbytes\<close> of the final buffer, and the bytes of
  the buffer that \<^verbatim>\<open>areq->result\<close> points to.
\<close>

record safexcel_ahash_req =
  last_req :: bool
  finish :: bool
  len :: "u64 \<times> u64"

record ahash_request =
  nbytes :: u32
  result :: "u8 list"

text \<open>
  The arrays \<^verbatim>\<open>md5_zero_message_hash\<close> to \<^verbatim>\<open>sha512_zero_message_hash\<close> and the digest
  sizes \<^verbatim>\<open>MD5_DIGEST_SIZE\<close> to \<^verbatim>\<open>SHA512_DIGEST_SIZE\<close> belong to the kernel's hash
  library, which declares each array with the digest size of its algorithm. The contents
  of the arrays and the sizes are parameters here.
\<close>

record zero_message_hashes =
  md5_zero_message_hash :: "u8 list"
  sha1_zero_message_hash :: "u8 list"
  sha224_zero_message_hash :: "u8 list"
  sha256_zero_message_hash :: "u8 list"
  sha384_zero_message_hash :: "u8 list"
  sha512_zero_message_hash :: "u8 list"
  MD5_DIGEST_SIZE :: nat
  SHA1_DIGEST_SIZE :: nat
  SHA224_DIGEST_SIZE :: nat
  SHA256_DIGEST_SIZE :: nat
  SHA384_DIGEST_SIZE :: nat
  SHA512_DIGEST_SIZE :: nat

text \<open>
  \<^verbatim>\<open>memcpy(dst, src, n)\<close> on the bytes of the two buffers. Copying more bytes than
  either buffer holds is undefined in C and is a fault here.
\<close>

datatype fault = BufferOverrun

definition memcpy :: "u8 list \<Rightarrow> u8 list \<Rightarrow> nat \<Rightarrow> fault + u8 list" where
  "memcpy dst src n =
     (if n \<le> length dst \<and> n \<le> length src then Inr (take n src @ drop n dst)
      else Inl BufferOverrun)"

text \<open>
  \<^verbatim>\<open>safexcel_ahash_final\<close>. \<open>alg\<close> is \<^verbatim>\<open>ctx->alg\<close>. \<open>enqueue\<close> is
  \<^verbatim>\<open>safexcel_ahash_enqueue\<close>, a function of the request and of the state \<open>'w\<close> of all
  that it can reach beside the request: the context record, the queues and work queues of
  the rings, and the device; it gives the return value and the new states. The result is
  the return value, the request state, the request and the state of the rest.
\<close>

definition safexcel_ahash_final ::
  "zero_message_hashes \<Rightarrow>
   (safexcel_ahash_req \<Rightarrow> ahash_request \<Rightarrow> 'w \<Rightarrow> int \<times> safexcel_ahash_req \<times> 'w) \<Rightarrow>
   u32 \<Rightarrow> safexcel_ahash_req \<Rightarrow> ahash_request \<Rightarrow> 'w \<Rightarrow>
   fault + (int \<times> safexcel_ahash_req \<times> ahash_request \<times> 'w)" where
  "safexcel_ahash_final zh enqueue alg rq areq w =
     (let rq1 = rq\<lparr>last_req := True, finish := True\<rparr>
      in if fst (len rq1) = 0 \<and> snd (len rq1) = 0 \<and> nbytes areq = 0
         then
           (case (if alg = CONTEXT_CONTROL_CRYPTO_ALG_MD5
                  then memcpy (result areq) (md5_zero_message_hash zh) (MD5_DIGEST_SIZE zh)
                  else if alg = CONTEXT_CONTROL_CRYPTO_ALG_SHA1
                  then memcpy (result areq) (sha1_zero_message_hash zh) (SHA1_DIGEST_SIZE zh)
                  else if alg = CONTEXT_CONTROL_CRYPTO_ALG_SHA224
                  then memcpy (result areq) (sha224_zero_message_hash zh) (SHA224_DIGEST_SIZE zh)
                  else if alg = CONTEXT_CONTROL_CRYPTO_ALG_SHA256
                  then memcpy (result areq) (sha256_zero_message_hash zh) (SHA256_DIGEST_SIZE zh)
                  else if alg = CONTEXT_CONTROL_CRYPTO_ALG_SHA384
                  then memcpy (result areq) (sha384_zero_message_hash zh) (SHA384_DIGEST_SIZE zh)
                  else if alg = CONTEXT_CONTROL_CRYPTO_ALG_SHA512
                  then memcpy (result areq) (sha512_zero_message_hash zh) (SHA512_DIGEST_SIZE zh)
                  else Inr (result areq)) of
              Inl f \<Rightarrow> Inl f
            | Inr buf \<Rightarrow> Inr (0, rq1, areq\<lparr>result := buf\<rparr>, w))
         else
           (case enqueue rq1 areq w of (ret, rq2, w') \<Rightarrow> Inr (ret, rq2, areq, w')))"

text \<open>
  The digest and size that belong to an algorithm: the array of the algorithm's own name
  and the digest size of the algorithm's own name.
\<close>

definition zero_digest :: "zero_message_hashes \<Rightarrow> (u32 \<times> u8 list \<times> nat) list" where
  "zero_digest zh =
     [(CONTEXT_CONTROL_CRYPTO_ALG_MD5, md5_zero_message_hash zh, MD5_DIGEST_SIZE zh),
      (CONTEXT_CONTROL_CRYPTO_ALG_SHA1, sha1_zero_message_hash zh, SHA1_DIGEST_SIZE zh),
      (CONTEXT_CONTROL_CRYPTO_ALG_SHA224, sha224_zero_message_hash zh, SHA224_DIGEST_SIZE zh),
      (CONTEXT_CONTROL_CRYPTO_ALG_SHA256, sha256_zero_message_hash zh, SHA256_DIGEST_SIZE zh),
      (CONTEXT_CONTROL_CRYPTO_ALG_SHA384, sha384_zero_message_hash zh, SHA384_DIGEST_SIZE zh),
      (CONTEXT_CONTROL_CRYPTO_ALG_SHA512, sha512_zero_message_hash zh, SHA512_DIGEST_SIZE zh)]"

text \<open>
  The digests of the empty message and the digest sizes for a run, an \<^verbatim>\<open>enqueue\<close> that
  counts its calls, and a request with no data and a result buffer of 20 bytes.
\<close>

definition demo_hashes :: zero_message_hashes where
  "demo_hashes =
     \<lparr>md5_zero_message_hash =
        [0xd4, 0x1d, 0x8c, 0xd9, 0x8f, 0x00, 0xb2, 0x04, 0xe9, 0x80, 0x09, 0x98, 0xec,
         0xf8, 0x42, 0x7e],
      sha1_zero_message_hash =
        [0xda, 0x39, 0xa3, 0xee, 0x5e, 0x6b, 0x4b, 0x0d, 0x32, 0x55, 0xbf, 0xef, 0x95,
         0x60, 0x18, 0x90, 0xaf, 0xd8, 0x07, 0x09],
      sha224_zero_message_hash =
        [0xd1, 0x4a, 0x02, 0x8c, 0x2a, 0x3a, 0x2b, 0xc9, 0x47, 0x61, 0x02, 0xbb, 0x28,
         0x82, 0x34, 0xc4, 0x15, 0xa2, 0xb0, 0x1f, 0x82, 0x8e, 0xa6, 0x2a, 0xc5, 0xb3,
         0xe4, 0x2f],
      sha256_zero_message_hash =
        [0xe3, 0xb0, 0xc4, 0x42, 0x98, 0xfc, 0x1c, 0x14, 0x9a, 0xfb, 0xf4, 0xc8, 0x99,
         0x6f, 0xb9, 0x24, 0x27, 0xae, 0x41, 0xe4, 0x64, 0x9b, 0x93, 0x4c, 0xa4, 0x95,
         0x99, 0x1b, 0x78, 0x52, 0xb8, 0x55],
      sha384_zero_message_hash =
        [0x38, 0xb0, 0x60, 0xa7, 0x51, 0xac, 0x96, 0x38, 0x4c, 0xd9, 0x32, 0x7e, 0xb1,
         0xb1, 0xe3, 0x6a, 0x21, 0xfd, 0xb7, 0x11, 0x14, 0xbe, 0x07, 0x43, 0x4c, 0x0c,
         0xc7, 0xbf, 0x63, 0xf6, 0xe1, 0xda, 0x27, 0x4e, 0xde, 0xbf, 0xe7, 0x6f, 0x65,
         0xfb, 0xd5, 0x1a, 0xd2, 0xf1, 0x48, 0x98, 0xb9, 0x5b],
      sha512_zero_message_hash =
        [0xcf, 0x83, 0xe1, 0x35, 0x7e, 0xef, 0xb8, 0xbd, 0xf1, 0x54, 0x28, 0x50, 0xd6,
         0x6d, 0x80, 0x07, 0xd6, 0x20, 0xe4, 0x05, 0x0b, 0x57, 0x15, 0xdc, 0x83, 0xf4,
         0xa9, 0x21, 0xd3, 0x6c, 0xe9, 0xce, 0x47, 0xd0, 0xd1, 0x3c, 0x5d, 0x85, 0xf2,
         0xb0, 0xff, 0x83, 0x18, 0xd2, 0x87, 0x7e, 0xec, 0x2f, 0x63, 0xb9, 0x31, 0xbd,
         0x47, 0x41, 0x7a, 0x81, 0xa5, 0x38, 0x32, 0x7a, 0xf9, 0x27, 0xda, 0x3e],
      MD5_DIGEST_SIZE = 16, SHA1_DIGEST_SIZE = 20, SHA224_DIGEST_SIZE = 28,
      SHA256_DIGEST_SIZE = 32, SHA384_DIGEST_SIZE = 48, SHA512_DIGEST_SIZE = 64\<rparr>"

definition demo_enqueue ::
  "safexcel_ahash_req \<Rightarrow> ahash_request \<Rightarrow> nat \<Rightarrow> int \<times> safexcel_ahash_req \<times> nat" where
  "demo_enqueue rq areq w = (- 115, rq, Suc w)"

definition demo_hash_req :: safexcel_ahash_req where
  "demo_hash_req = \<lparr>last_req = False, finish = False, len = (0, 0)\<rparr>"

definition demo_ahash_request :: ahash_request where
  "demo_ahash_request = \<lparr>nbytes = 0, result = replicate 20 0xff\<rparr>"

subsection \<open>What the result loop guarantees\<close>

text \<open>
  The events of the result callbacks and the acknowledge writes; the amounts that the two
  updates of the counter carry; and the relation between the accumulator of the result
  loop and its result: the loop adds result events only, and \<^verbatim>\<open>handled\<close> is, as an
  \<^verbatim>\<open>int\<close>, what it was less \<^verbatim>\<open>nreq\<close> plus the number of results handled.
\<close>

fun result_event :: "'r event \<Rightarrow> bool" where
  "result_event (HandleResult r ndesc should_complete ret) \<longleftrightarrow> True"
| "result_event (ReqComplete r ret) \<longleftrightarrow> True"
| "result_event e \<longleftrightarrow> False"

fun proc_ack :: "'r event \<Rightarrow> bool" where
  "proc_ack (Writel v rg) \<longleftrightarrow> rg = RDR_PROC_COUNT"
| "proc_ack e \<longleftrightarrow> False"

fun added :: "'r event \<Rightarrow> int" where
  "added (RequestsAdd n) = n"
| "added e = 0"

fun removed :: "'r event \<Rightarrow> int" where
  "removed (RequestsSub n) = n"
| "removed e = 0"

definition add_sum :: "'r event list \<Rightarrow> int" where
  "add_sum t = sum_list (map added t)"

definition sub_sum :: "'r event list \<Rightarrow> int" where
  "sub_sum t = sum_list (map removed t)"

definition hrd_post ::
  "int \<Rightarrow> int \<Rightarrow> 'r event list \<Rightarrow> int \<times> int \<times> 'r event list \<Rightarrow> bool" where
  "hrd_post nreq handled ev res \<longleftrightarrow>
     (case res of
        (handled', tot', ev') \<Rightarrow>
          \<exists>hs. ev' = ev @ hs \<and> (\<forall>e\<in>set hs. result_event e) \<and>
               int32 handled' = int32 (handled - nreq + completed hs))"

text \<open>
  The two threads of a ring. The dequeue runs of a ring are the runs of its work item,
  one after the other, and the completion runs are the runs of its interrupt thread.
  \<open>deq_thread\<close> holds of the events of dequeue runs: they handle no result and do not
  subtract from the counter; at every point the admitted requests that are published
  are counted, and the amounts added to the counter are, as an \<^verbatim>\<open>int\<close>, the number of
  requests counted; and at the end every admitted request is counted and published.
  \<open>cmp_thread\<close> holds of the events of completion runs: they admit nothing, do not add
  to the counter and publish nothing; at every point the amounts subtracted are, as an
  \<^verbatim>\<open>int\<close>, the number of results let go; and at the end every handled result is let
  go.
\<close>

definition deq_thread :: "'r event list \<Rightarrow> bool" where
  "deq_thread tr \<longleftrightarrow>
     (\<forall>e\<in>set tr. \<not> handles e \<and> \<not> counter_sub e) \<and>
     (\<forall>px. prefix px tr \<longrightarrow>
        published px \<le> counted px \<and> int32 (add_sum px) = int32 (counted px)) \<and>
     counted tr = admitted tr \<and> published tr = admitted tr"

definition cmp_thread :: "'r event list \<Rightarrow> bool" where
  "cmp_thread tr \<longleftrightarrow>
     (\<forall>e\<in>set tr. \<not> admits e \<and> \<not> counter_add e \<and> \<not> publishes e) \<and>
     (\<forall>py. prefix py tr \<longrightarrow> int32 (sub_sum py) = int32 (released py)) \<and>
     released tr = completed tr"

text \<open>
  Two dequeue runs and a completion run of one ring, and an interleaving of their events:
  the first dequeue run admits requests 1 and 2; while their results are handled, the
  second dequeue run admits request 3. \<open>demo_point\<close> is the point of the interleaving
  after the second result is handled, before the second dequeue run publishes its result
  descriptor.
\<close>

definition demo_busy_ring :: "nat safexcel_ring" where
  "demo_busy_ring = idle_ring\<lparr>requests := 2, thresh_written := 2, busy := True\<rparr>"

definition demo_druns ::
  "(safexcel_config \<times> (nat \<Rightarrow> nat \<Rightarrow> (int \<times> int \<times> int) \<times> nat) \<times> nat safexcel_ring \<times>
     (nat option \<times> nat) list \<times> nat) list" where
  "demo_druns = [(demo_config, demo_send, idle_ring, [(None, 1), (None, 2)], 0),
                 (demo_config, demo_send, demo_busy_ring, [(None, 3)], 2)]"

definition demo_cruns ::
  "(safexcel_config \<times> nat safexcel_ring \<times> u32 \<times> (nat \<times> int \<times> bool \<times> int) list \<times> bool list) list"
  where
  "demo_cruns = [(demo_config, demo_busy_ring, 0x10, [(1, 1, True, 0), (2, 1, True, 0)], [])]"

definition demo_point :: "nat event list" where
  "demo_point =
     [Writel 0x800000 RDR_THRESH, SendCall 1 0 1 1, SendCall 2 0 1 1,
      Writel 128 CDR_PREP_COUNT, RequestsAdd 2, Writel 128 RDR_PREP_COUNT,
      Writel 0x800002 RDR_THRESH,
      HandleResult 1 1 True 0, ReqComplete 1 0,
      Writel 0x800000 RDR_THRESH, SendCall 3 0 1 1, Writel 64 CDR_PREP_COUNT, RequestsAdd 1,
      HandleResult 2 1 True 0, ReqComplete 2 0]"

definition demo_trace :: "nat event list" where
  "demo_trace = demo_point @
     [Writel 64 RDR_PREP_COUNT, Writel 0x800003 RDR_THRESH,
      Writel 0x2000080 RDR_PROC_COUNT, RequestsSub 2, Writel 0xff RDR_STAT]"

section \<open>Descriptor ring cursors\<close>

subsection \<open>Slots and addresses\<close>

lemma of_nat64_inj:
  "a < 2 ^ 64 \<Longrightarrow> b < 2 ^ 64 \<Longrightarrow> (of_nat a :: addr) = of_nat b \<longleftrightarrow> a = b"
  by (simp add: word_of_nat_eq_iff take_bit_nat_eq_self)

lemma unat_of_nat64: "a < 2 ^ 64 \<Longrightarrow> unat (of_nat a :: addr) = a"
  by (simp add: unat_of_nat)

lemma slot_bound:
  assumes "unat offset * n < 2 ^ 64" "i < n"
  shows "unat offset * i < 2 ^ 64"
proof -
  have "unat offset * i \<le> unat offset * n" using assms(2) by simp
  then show ?thesis using assms(1) by linarith
qed

lemma slot_inj:
  assumes "unat offset * n < 2 ^ 64" "0 < unat offset" "i < n" "j < n"
  shows "slot_addr b offset i = slot_addr b offset j \<longleftrightarrow> i = j"
proof -
  have "(of_nat (unat offset * i) :: addr) = of_nat (unat offset * j) \<longleftrightarrow>
        unat offset * i = unat offset * j"
    by (rule of_nat64_inj [OF slot_bound [OF assms(1) assms(3)] slot_bound [OF assms(1) assms(4)]])
  then show ?thesis unfolding slot_addr_def using assms(2) by simp
qed

lemma slot_0: "slot_addr b offset 0 = b"
  by (simp add: slot_addr_def)

lemma slot_Suc: "slot_addr b offset (Suc i) = slot_addr b offset i + ucast offset"
  by (simp add: slot_addr_def algebra_simps)

lemma slot_pred: "0 < i \<Longrightarrow> slot_addr b offset i - ucast offset = slot_addr b offset (i - 1)"
  by (cases i) (simp_all add: slot_Suc)

lemma slot_not_before_base:
  assumes "unat offset * n < 2 ^ 64" "0 < unat offset" "i < n"
  shows "slot_addr b offset i \<noteq> b - ucast offset"
proof
  assume "slot_addr b offset i = b - ucast offset"
  then have "slot_addr b offset (Suc i) = b" by (simp add: slot_Suc)
  then have "(of_nat (unat offset * Suc i) :: addr) = of_nat 0"
    unfolding slot_addr_def by simp
  moreover have "unat offset * Suc i \<le> unat offset * n"
    using assms(3) by (intro mult_le_mono2) simp
  then have "unat offset * Suc i < 2 ^ 64" using assms(1) by linarith
  ultimately have "unat offset * Suc i = 0"
    using of_nat64_inj [of "unat offset * Suc i" 0] by simp
  then show False using assms(2) by simp
qed

lemma ring_index_slot:
  assumes "unat offset * n < 2 ^ 64" "0 < unat offset" "i < n" "base r = b"
  shows "ring_index r offset (slot_addr b offset i) = i"
proof -
  have "unat (of_nat (unat offset * i) :: addr) = unat offset * i"
    by (rule unat_of_nat64 [OF slot_bound [OF assms(1) assms(3)]])
  then show ?thesis unfolding ring_index_def slot_addr_def using assms(2,4) by simp
qed

lemma ring_wf_ring_of:
  assumes "0 < unat offset" "0 < n" "unat offset * n < 2 ^ 64" "wi < n" "ri < n"
  shows "ring_wf offset n (ring_of b offset n wi ri)"
proof -
  let ?r = "ring_of b offset n wi ri"
  have b: "base ?r = b" by (simp add: ring_of_def)
  have w: "ring_index ?r offset (write ?r) = wi"
    using ring_index_slot [OF assms(3) assms(1) assms(4) b] by (simp add: ring_of_def)
  have r: "ring_index ?r offset (read ?r) = ri"
    using ring_index_slot [OF assms(3) assms(1) assms(5) b] by (simp add: ring_of_def)
  show ?thesis unfolding ring_wf_def w r b using assms by simp
qed

lemma ring_wf_cases:
  assumes "ring_wf offset n r"
  obtains wi ri where "wi < n" "ri < n" "r = ring_of (base r) offset n wi ri"
    "0 < unat offset" "0 < n" "unat offset * n < 2 ^ 64"
  using assms unfolding ring_wf_def by blast

lemma ring_count_ring_of:
  assumes "0 < unat offset" "unat offset * n < 2 ^ 64" "wi < n" "ri < n"
  shows "ring_count offset n (ring_of b offset n wi ri) = (wi + n - ri) mod n"
proof -
  let ?r = "ring_of b offset n wi ri"
  have b: "base ?r = b" by (simp add: ring_of_def)
  have w: "ring_index ?r offset (write ?r) = wi"
    using ring_index_slot [OF assms(2) assms(1) assms(3) b] by (simp add: ring_of_def)
  have r: "ring_index ?r offset (read ?r) = ri"
    using ring_index_slot [OF assms(2) assms(1) assms(4) b] by (simp add: ring_of_def)
  show ?thesis unfolding ring_count_def w r by simp
qed

lemma slot_eq_minus:
  assumes "unat offset * n < 2 ^ 64" "0 < unat offset" "wi < n" "ri < n"
  shows "slot_addr b offset wi = slot_addr b offset ri - ucast offset \<longleftrightarrow> 0 < ri \<and> wi = ri - 1"
proof (cases ri)
  case 0
  then show ?thesis
    using slot_not_before_base [OF assms(1,2,3), of b] by (simp add: slot_0)
next
  case (Suc k)
  then have "k < n" using assms(4) by simp
  then show ?thesis
    using Suc slot_inj [OF assms(1,2,3), of k b] by (simp add: slot_Suc)
qed

lemma slot_eq_base:
  assumes "unat offset * n < 2 ^ 64" "0 < unat offset" "i < n"
  shows "slot_addr b offset i = b \<longleftrightarrow> i = 0"
proof -
  have "0 < n" using assms(3) by simp
  from slot_inj [OF assms(1,2,3) this, of b] show ?thesis by (simp add: slot_0)
qed

lemma slot_eq_end:
  assumes "unat offset * n < 2 ^ 64" "0 < unat offset" "i < n"
  shows "slot_addr b offset i = slot_addr b offset (n - 1) \<longleftrightarrow> i = n - 1"
proof -
  have "n - 1 < n" using assms(3) by simp
  from slot_inj [OF assms(1,2,3) this, of b] show ?thesis .
qed

lemma full_index:
  assumes "wi < n" "ri < (n::nat)"
  shows "(0 < ri \<and> wi = ri - 1) \<or> (ri = 0 \<and> wi = n - 1) \<longleftrightarrow> Suc wi mod n = ri"
proof (cases "Suc wi = n")
  case True
  then show ?thesis using assms by auto
next
  case False
  then have "Suc wi < n" using assms(1) by simp
  then have "Suc wi mod n = Suc wi" by simp
  then show ?thesis using assms False by auto
qed

lemma wptr_facts:
  assumes "unat offset * n < 2 ^ 64" "0 < unat offset" "wi < n" "ri < n"
  shows "(slot_addr b offset wi = slot_addr b offset ri - ucast offset \<or>
               (slot_addr b offset ri = b \<and> slot_addr b offset wi = slot_addr b offset (n - 1)))
              \<longleftrightarrow> Suc wi mod n = ri"
    and "slot_addr b offset wi = slot_addr b offset (n - 1) \<Longrightarrow>
           slot_addr b offset (Suc wi mod n) = b"
    and "slot_addr b offset wi \<noteq> slot_addr b offset (n - 1) \<Longrightarrow>
           slot_addr b offset (Suc wi mod n) = slot_addr b offset wi + ucast offset"
proof -
  note f1 = slot_eq_minus [OF assms, of b]
  note f2 = slot_eq_base [OF assms(1,2,4), of b]
  note f3 = slot_eq_end [OF assms(1,2,3), of b]
  note f4 = full_index [OF assms(3,4)]
  show "(slot_addr b offset wi = slot_addr b offset ri - ucast offset \<or>
               (slot_addr b offset ri = b \<and> slot_addr b offset wi = slot_addr b offset (n - 1)))
              \<longleftrightarrow> Suc wi mod n = ri"
    unfolding f1 f2 f3 using f4 by simp
  show "slot_addr b offset wi = slot_addr b offset (n - 1) \<Longrightarrow>
           slot_addr b offset (Suc wi mod n) = b"
    unfolding f3 using assms(3) by (simp add: slot_0)
  show "slot_addr b offset wi \<noteq> slot_addr b offset (n - 1) \<Longrightarrow>
           slot_addr b offset (Suc wi mod n) = slot_addr b offset wi + ucast offset"
  proof -
    assume "slot_addr b offset wi \<noteq> slot_addr b offset (n - 1)"
    then have "Suc wi < n" unfolding f3 using assms(3) by simp
    then show ?thesis by (simp add: slot_Suc)
  qed
qed

lemma cdr_next_wptr_ring_of:
  assumes "unat (cd_offset cfg) * n < 2 ^ 64" "0 < unat (cd_offset cfg)" "wi < n" "ri < n"
  shows "safexcel_cdr_next_wptr cfg (ring_of b (cd_offset cfg) n wi ri) =
     (if Suc wi mod n = ri then (Inl ENOMEM, ring_of b (cd_offset cfg) n wi ri)
      else (Inr (slot_addr b (cd_offset cfg) wi),
            ring_of b (cd_offset cfg) n (Suc wi mod n) ri))"
  using wptr_facts [OF assms, of b]
  by (simp add: safexcel_cdr_next_wptr_def ring_of_def Let_def)

lemma rdr_next_wptr_ring_of:
  assumes "unat (rd_offset cfg) * n < 2 ^ 64" "0 < unat (rd_offset cfg)" "wi < n" "ri < n"
  shows "safexcel_rdr_next_wptr cfg (ring_of b (rd_offset cfg) n wi ri) =
     (if Suc wi mod n = ri then (Inl ENOMEM, ring_of b (rd_offset cfg) n wi ri)
      else (Inr (slot_addr b (rd_offset cfg) wi),
            ring_of b (rd_offset cfg) n (Suc wi mod n) ri))"
  using wptr_facts [OF assms, of b]
  by (simp add: safexcel_rdr_next_wptr_def ring_of_def Let_def)

lemma next_wptr_ring_of:
  assumes "unat (ring_offset cfg k) * n < 2 ^ 64" "0 < unat (ring_offset cfg k)" "wi < n" "ri < n"
  shows "next_wptr k cfg (ring_of b (ring_offset cfg k) n wi ri) =
     (if Suc wi mod n = ri then (Inl ENOMEM, ring_of b (ring_offset cfg k) n wi ri)
      else (Inr (slot_addr b (ring_offset cfg k) wi),
            ring_of b (ring_offset cfg k) n (Suc wi mod n) ri))"
proof (cases k)
  case CDR
  then show ?thesis
    using assms cdr_next_wptr_ring_of [of cfg n wi ri b]
    by (simp add: next_wptr_def ring_offset_def)
next
  case RDR
  then show ?thesis
    using assms rdr_next_wptr_ring_of [of cfg n wi ri b]
    by (simp add: next_wptr_def ring_offset_def)
qed


lemma pred_index:
  assumes "wi < (n::nat)"
  shows "(wi + n - 1) mod n = (if wi = 0 then n - 1 else wi - 1)"
proof (cases wi)
  case 0
  then show ?thesis using assms by simp
next
  case (Suc j)
  then have "(wi + n - 1) = j + n" by simp
  then show ?thesis using Suc assms by simp
qed

lemma rollback_facts:
  assumes "unat offset * n < 2 ^ 64" "0 < unat offset" "wi < n" "ri < n"
  shows "slot_addr b offset wi = slot_addr b offset ri \<longleftrightarrow> wi = ri"
    and "slot_addr b offset wi = b \<Longrightarrow>
           slot_addr b offset ((wi + n - 1) mod n) = slot_addr b offset (n - 1)"
    and "slot_addr b offset wi \<noteq> b \<Longrightarrow>
           slot_addr b offset ((wi + n - 1) mod n) = slot_addr b offset wi - ucast offset"
proof -
  note f2 = slot_eq_base [OF assms(1,2,3), of b]
  show "slot_addr b offset wi = slot_addr b offset ri \<longleftrightarrow> wi = ri"
    by (rule slot_inj [OF assms])
  show "slot_addr b offset wi = b \<Longrightarrow>
           slot_addr b offset ((wi + n - 1) mod n) = slot_addr b offset (n - 1)"
    unfolding f2 pred_index [OF assms(3)] by simp
  show "slot_addr b offset wi \<noteq> b \<Longrightarrow>
           slot_addr b offset ((wi + n - 1) mod n) = slot_addr b offset wi - ucast offset"
    unfolding f2 pred_index [OF assms(3)] by (simp add: slot_pred)
qed

lemma rollback_wptr_ring_of:
  assumes "unat (ring_offset cfg k) * n < 2 ^ 64" "0 < unat (ring_offset cfg k)" "wi < n" "ri < n"
  shows "rollback_wptr k cfg (ring_of b (ring_offset cfg k) n wi ri) =
     (if wi = ri then ring_of b (ring_offset cfg k) n wi ri
      else ring_of b (ring_offset cfg k) n ((wi + n - 1) mod n) ri)"
proof (cases k)
  case CDR
  then have o: "ring_offset cfg k = cd_offset cfg" by (simp add: ring_offset_def)
  show ?thesis
    using rollback_facts [OF assms, of b] unfolding o
    by (simp add: CDR rollback_wptr_def safexcel_cdr_rollback_wptr_def ring_of_def)
next
  case RDR
  then have o: "ring_offset cfg k = rd_offset cfg" by (simp add: ring_offset_def)
  show ?thesis
    using rollback_facts [OF assms, of b] unfolding o
    by (simp add: RDR rollback_wptr_def safexcel_rdr_rollback_wptr_def ring_of_def)
qed

lemma own_poll_ready:
  "loads k = EIP197_OWNERSHIP_MAGIC \<Longrightarrow> own_poll (Suc (Suc c)) k loads = (Suc c, k)"
  by simp

lemma poll_count_Suc: "EIP197_OWN_POLL_COUNT = Suc (Suc 8)"
  by (simp add: EIP197_OWN_POLL_COUNT_def)

lemma rptr_facts:
  assumes "unat offset * n < 2 ^ 64" "0 < unat offset" "ri < n"
  shows "slot_addr b offset ri = slot_addr b offset (n - 1) \<Longrightarrow>
           slot_addr b offset (Suc ri mod n) = b"
    and "slot_addr b offset ri \<noteq> slot_addr b offset (n - 1) \<Longrightarrow>
           slot_addr b offset (Suc ri mod n) = slot_addr b offset ri + ucast offset"
  using wptr_facts(2,3) [OF assms(1,2,3,3), of b] by simp_all

lemma next_rptr_ring_of:
  assumes "unat (ring_offset cfg k) * n < 2 ^ 64" "0 < unat (ring_offset cfg k)" "wi < n" "ri < n"
  shows "next_rptr k cfg (ring_of b (ring_offset cfg k) n wi ri) =
           ring_of b (ring_offset cfg k) n wi (Suc ri mod n)"
proof (cases k)
  case CDR
  then have o: "ring_offset cfg k = cd_offset cfg" by (simp add: ring_offset_def)
  show ?thesis
    using rptr_facts [OF assms(1,2,4), of b] unfolding o
    by (simp add: CDR next_rptr_def safexcel_cdr_next_rptr_def ring_of_def Let_def)
next
  case RDR
  then have o: "ring_offset cfg k = rd_offset cfg" by (simp add: ring_offset_def)
  have p: "own_poll EIP197_OWN_POLL_COUNT 0 (\<lambda>k. word32 ready_mem a) = (Suc 8, 0)" for a
    unfolding poll_count_Suc by (rule own_poll_ready) (simp add: ready_mem_def)
  show ?thesis
    using rptr_facts [OF assms(1,2,4), of b] unfolding o
    by (simp add: RDR next_rptr_def safexcel_rdr_next_rptr_def ring_of_def Let_def p
        EIP197_RD_OWN_WORD_def)
qed

subsection \<open>Arithmetic of slot indices\<close>

lemma count_closed:
  assumes "wi < n" "ri < (n::nat)"
  shows "(wi + n - ri) mod n = (if ri \<le> wi then wi - ri else wi + n - ri)"
proof (cases "ri \<le> wi")
  case True
  then have "wi + n - ri = (wi - ri) + n" by simp
  then have "(wi + n - ri) mod n = ((wi - ri) + n) mod n" by simp
  also have "\<dots> = (wi - ri) mod n" by simp
  also have "\<dots> = wi - ri" using assms by simp
  finally show ?thesis using True by simp
next
  case False
  then have "wi + n - ri < n" using assms by simp
  then show ?thesis using False by simp
qed

lemma succ_closed:
  assumes "wi < (n::nat)"
  shows "Suc wi mod n = (if Suc wi = n then 0 else Suc wi)"
  using assms by (auto simp: mod_Suc)

lemma pred_closed:
  assumes "wi < (n::nat)"
  shows "(wi + n - 1) mod n = (if wi = 0 then n - 1 else wi - 1)"
proof (cases wi)
  case 0
  then show ?thesis using assms by simp
next
  case (Suc j)
  then have "(wi + n - 1) = j + n" by simp
  then show ?thesis using Suc assms by simp
qed

lemma count_full:
  assumes "wi < n" "ri < (n::nat)"
  shows "Suc wi mod n = ri \<longleftrightarrow> (wi + n - ri) mod n = n - 1"
proof -
  define c where "c = (wi + n - ri) mod n"
  define w' where "w' = Suc wi mod n"
  have "c = (if ri \<le> wi then wi - ri else wi + n - ri)"
    unfolding c_def by (rule count_closed [OF assms])
  moreover have "w' = (if Suc wi = n then 0 else Suc wi)"
    unfolding w'_def by (rule succ_closed [OF assms(1)])
  ultimately have "w' = ri \<longleftrightarrow> c = n - 1"
    using assms by (auto split: if_splits)
  then show ?thesis unfolding c_def w'_def .
qed

lemma count_empty:
  assumes "wi < n" "ri < (n::nat)"
  shows "(wi + n - ri) mod n = 0 \<longleftrightarrow> wi = ri"
proof -
  define c where "c = (wi + n - ri) mod n"
  have "c = (if ri \<le> wi then wi - ri else wi + n - ri)"
    unfolding c_def by (rule count_closed [OF assms])
  then have "c = 0 \<longleftrightarrow> wi = ri"
    using assms by (auto split: if_splits)
  then show ?thesis unfolding c_def .
qed

lemma count_le:
  assumes "0 < (n::nat)"
  shows "(wi + n - ri) mod n \<le> n - 1"
proof -
  have "(wi + n - ri) mod n < n" using assms by simp
  then show ?thesis by simp
qed

lemma count_succ:
  assumes "wi < n" "ri < (n::nat)" "Suc wi mod n \<noteq> ri"
  shows "(Suc wi mod n + n - ri) mod n = Suc ((wi + n - ri) mod n)"
proof -
  define c where "c = (wi + n - ri) mod n"
  define w' where "w' = Suc wi mod n"
  define c' where "c' = (w' + n - ri) mod n"
  have w': "w' = (if Suc wi = n then 0 else Suc wi)"
    unfolding w'_def by (rule succ_closed [OF assms(1)])
  then have "w' < n" using assms(1) by (auto split: if_splits)
  then have "c' = (if ri \<le> w' then w' - ri else w' + n - ri)"
    unfolding c'_def by (rule count_closed [OF _ assms(2)])
  moreover have "c = (if ri \<le> wi then wi - ri else wi + n - ri)"
    unfolding c_def by (rule count_closed [OF assms(1,2)])
  moreover have "w' \<noteq> ri" using assms(3) unfolding w'_def .
  ultimately have "c' = Suc c"
    using assms(1,2) w' by (auto split: if_splits)
  then show ?thesis unfolding c_def c'_def w'_def .
qed

lemma count_pred:
  assumes "wi < n" "ri < (n::nat)" "wi \<noteq> ri"
  shows "((wi + n - 1) mod n + n - ri) mod n = (wi + n - ri) mod n - 1"
proof -
  define c where "c = (wi + n - ri) mod n"
  define w' where "w' = (wi + n - 1) mod n"
  define c' where "c' = (w' + n - ri) mod n"
  have w': "w' = (if wi = 0 then n - 1 else wi - 1)"
    unfolding w'_def by (rule pred_closed [OF assms(1)])
  then have "w' < n" using assms(1) by (auto split: if_splits)
  then have "c' = (if ri \<le> w' then w' - ri else w' + n - ri)"
    unfolding c'_def by (rule count_closed [OF _ assms(2)])
  moreover have "c = (if ri \<le> wi then wi - ri else wi + n - ri)"
    unfolding c_def by (rule count_closed [OF assms(1,2)])
  ultimately have "c' = c - 1"
    using assms w' by (auto split: if_splits)
  then show ?thesis unfolding c_def c'_def w'_def .
qed

lemma count_read:
  assumes "wi < n" "ri < (n::nat)" "0 < (wi + n - ri) mod n"
  shows "(wi + n - Suc ri mod n) mod n = (wi + n - ri) mod n - 1"
proof -
  define c where "c = (wi + n - ri) mod n"
  define r' where "r' = Suc ri mod n"
  define c' where "c' = (wi + n - r') mod n"
  have r': "r' = (if Suc ri = n then 0 else Suc ri)"
    unfolding r'_def by (rule succ_closed [OF assms(2)])
  then have "r' < n" using assms(2) by (auto split: if_splits)
  then have "c' = (if r' \<le> wi then wi - r' else wi + n - r')"
    unfolding c'_def by (rule count_closed [OF assms(1)])
  moreover have "c = (if ri \<le> wi then wi - ri else wi + n - ri)"
    unfolding c_def by (rule count_closed [OF assms(1,2)])
  moreover have "0 < c" using assms(3) unfolding c_def .
  ultimately have "c' = c - 1"
    using assms(1,2) r' by (auto split: if_splits)
  then show ?thesis unfolding c_def c'_def r'_def .
qed

subsection \<open>The ring invariant\<close>

lemma pred_succ_index:
  assumes "wi < (n::nat)"
  shows "(Suc wi mod n + n - 1) mod n = wi"
proof -
  define w' where "w' = Suc wi mod n"
  have w': "w' = (if Suc wi = n then 0 else Suc wi)"
    unfolding w'_def by (rule succ_closed [OF assms])
  then have "w' < n" using assms by (auto split: if_splits)
  then have "(w' + n - 1) mod n = (if w' = 0 then n - 1 else w' - 1)"
    by (rule pred_closed)
  then have "(w' + n - 1) mod n = wi" using w' assms by (auto split: if_splits)
  then show ?thesis unfolding w'_def .
qed

lemma ring_step_inv:
  assumes "ring_inv k cfg n s" "x = NextRead \<longrightarrow> 0 < snd s"
  shows "ring_inv k cfg n (ring_step k cfg s x)"
proof -
  obtain r c where s: "s = (r, c)" by (cases s)
  let ?o = "ring_offset cfg k"
  from assms(1) s have wf: "ring_wf ?o n r" and c: "c = ring_count ?o n r"
    by (simp_all add: ring_inv_def)
  from wf obtain wi ri where i: "wi < n" "ri < n" and r: "r = ring_of (base r) ?o n wi ri"
    and g: "0 < unat ?o" "0 < n" "unat ?o * n < 2 ^ 64"
    by (rule ring_wf_cases)
  define b where "b = base r"
  have r': "r = ring_of b ?o n wi ri" using r b_def by simp
  have cc: "c = (wi + n - ri) mod n"
    using c ring_count_ring_of [OF g(1,3) i, of b] r' by simp
  have inv_of: "ring_inv k cfg n (ring_of b ?o n wj rj, (wj + n - rj) mod n)"
    if "wj < n" "rj < n" for wj rj
    using ring_wf_ring_of [OF g that, of b] ring_count_ring_of [OF g(1,3) that, of b]
    by (simp add: ring_inv_def)
  have sw: "Suc wi mod n < n" and sr: "Suc ri mod n < n" and pw: "(wi + n - 1) mod n < n"
    using g(2) by simp_all
  have weq: "write r = read r \<longleftrightarrow> wi = ri"
    unfolding r' using slot_inj [OF g(3,1) i, of b] by (simp add: ring_of_def)
  show ?thesis
  proof (cases x)
    case NextWrite
    show ?thesis
    proof (cases "Suc wi mod n = ri")
      case True
      then show ?thesis
        using NextWrite s assms(1) next_wptr_ring_of [OF g(3,1) i, of b] r' by simp
    next
      case False
      have "ring_step k cfg s x = (ring_of b ?o n (Suc wi mod n) ri, Suc c)"
        using NextWrite s False next_wptr_ring_of [OF g(3,1) i, of b] r' by simp
      moreover have "Suc c = (Suc wi mod n + n - ri) mod n"
        unfolding cc using count_succ [OF i False] by simp
      ultimately show ?thesis using inv_of [OF sw i(2)] by simp
    qed
  next
    case RollbackWrite
    show ?thesis
    proof (cases "wi = ri")
      case True
      then show ?thesis
        using RollbackWrite s assms(1) weq rollback_wptr_ring_of [OF g(3,1) i, of b] r'
        by simp
    next
      case False
      have "ring_step k cfg s x = (ring_of b ?o n ((wi + n - 1) mod n) ri, c - 1)"
        using RollbackWrite s False weq rollback_wptr_ring_of [OF g(3,1) i, of b] r' by simp
      moreover have "c - 1 = ((wi + n - 1) mod n + n - ri) mod n"
        unfolding cc using count_pred [OF i False] by simp
      ultimately show ?thesis using inv_of [OF pw i(2)] by simp
    qed
  next
    case NextRead
    then have pos: "0 < (wi + n - ri) mod n" using assms(2) s cc by simp
    have "ring_step k cfg s x = (ring_of b ?o n wi (Suc ri mod n), c - 1)"
      using NextRead s next_rptr_ring_of [OF g(3,1) i, of b] r' by simp
    moreover have "c - 1 = (wi + n - Suc ri mod n) mod n"
      unfolding cc using count_read [OF i pos] by simp
    ultimately show ?thesis using inv_of [OF i(1) sr] by simp
  qed
qed

lemma ring_run_inv:
  "ring_inv k cfg n s \<Longrightarrow> disciplined k cfg s ops \<Longrightarrow> ring_inv k cfg n (ring_run k cfg s ops)"
proof (induction ops arbitrary: s)
  case Nil
  then show ?case by simp
next
  case (Cons x xs)
  from Cons.prems have "ring_inv k cfg n (ring_step k cfg s x)"
    by (intro ring_step_inv) simp_all
  then show ?case using Cons.IH Cons.prems(2) by simp
qed

lemma ring_inv_facts:
  assumes "ring_inv k cfg n (r, c)"
  shows "c \<le> n - 1"
    and "write r = read r \<longleftrightarrow> c = 0"
    and "fst (next_wptr k cfg r) = Inl ENOMEM \<longleftrightarrow> c = n - 1"
    and "c \<noteq> n - 1 \<Longrightarrow> next_wptr k cfg r =
           (Inr (write r),
            r\<lparr>write := (if write r = base_end r then base r
                          else write r + ucast (ring_offset cfg k))\<rparr>)"
proof -
  let ?o = "ring_offset cfg k"
  from assms have wf: "ring_wf ?o n r" and c: "c = ring_count ?o n r"
    by (simp_all add: ring_inv_def)
  from wf obtain wi ri where i: "wi < n" "ri < n" and r: "r = ring_of (base r) ?o n wi ri"
    and g: "0 < unat ?o" "0 < n" "unat ?o * n < 2 ^ 64"
    by (rule ring_wf_cases)
  define b where "b = base r"
  have r': "r = ring_of b ?o n wi ri" using r b_def by simp
  have cc: "c = (wi + n - ri) mod n"
    using c ring_count_ring_of [OF g(1,3) i, of b] r' by simp
  show "c \<le> n - 1" unfolding cc by (rule count_le [OF g(2)])
  have weq: "write r = read r \<longleftrightarrow> wi = ri"
    unfolding r' using slot_inj [OF g(3,1) i, of b] by (simp add: ring_of_def)
  show "write r = read r \<longleftrightarrow> c = 0"
    unfolding weq cc using count_empty [OF i] by simp
  note nw = next_wptr_ring_of [OF g(3,1) i, of b]
  show full: "fst (next_wptr k cfg r) = Inl ENOMEM \<longleftrightarrow> c = n - 1"
    unfolding cc count_full [OF i, symmetric] r' nw by simp
  show "next_wptr k cfg r =
           (Inr (write r),
            r\<lparr>write := (if write r = base_end r then base r
                          else write r + ucast (ring_offset cfg k))\<rparr>)" if "c \<noteq> n - 1"
  proof -
    from that have nf: "Suc wi mod n \<noteq> ri"
      unfolding cc count_full [OF i, symmetric] .
    have "slot_addr b ?o (Suc wi mod n) =
            (if slot_addr b ?o wi = slot_addr b ?o (n - 1) then b
             else slot_addr b ?o wi + ucast ?o)"
      using wptr_facts(2,3) [OF g(3,1) i, of b] by simp
    then show ?thesis
      unfolding r' nw using nf by (simp add: ring_of_def)
  qed
qed

lemma next_wptr_undo:
  assumes "ring_wf (ring_offset cfg k) n r" "next_wptr k cfg r = (Inr p, r1)"
  shows "rollback_wptr k cfg r1 = r \<and> ring_wf (ring_offset cfg k) n r1"
proof -
  let ?o = "ring_offset cfg k"
  from assms(1) obtain wi ri where i: "wi < n" "ri < n" and r: "r = ring_of (base r) ?o n wi ri"
    and g: "0 < unat ?o" "0 < n" "unat ?o * n < 2 ^ 64"
    by (rule ring_wf_cases)
  define b where "b = base r"
  have r': "r = ring_of b ?o n wi ri" using r b_def by simp
  have sw: "Suc wi mod n < n" using g(2) by simp
  from assms(2) have nf: "Suc wi mod n \<noteq> ri" and r1: "r1 = ring_of b ?o n (Suc wi mod n) ri"
    unfolding r' next_wptr_ring_of [OF g(3,1) i, of b] by (auto split: if_splits)
  have "rollback_wptr k cfg r1 = ring_of b ?o n ((Suc wi mod n + n - 1) mod n) ri"
    unfolding r1 rollback_wptr_ring_of [OF g(3,1) sw i(2), of b] using nf by simp
  then have "rollback_wptr k cfg r1 = r"
    unfolding pred_succ_index [OF i(1)] r' .
  moreover have "ring_wf ?o n r1"
    unfolding r1 by (rule ring_wf_ring_of [OF g sw i(2)])
  ultimately show ?thesis by simp
qed

lemma reserve_rollback:
  "ring_wf (ring_offset cfg k) n r \<Longrightarrow> reserve_n k cfg N r = Some r' \<Longrightarrow>
     (rollback_wptr k cfg ^^ N) r' = r"
proof (induction N arbitrary: r)
  case 0
  then show ?case by simp
next
  case (Suc N)
  from Suc.prems(2) obtain p r1 where nw: "next_wptr k cfg r = (Inr p, r1)"
    and rest: "reserve_n k cfg N r1 = Some r'"
    by (auto split: prod.splits sum.splits)
  from next_wptr_undo [OF Suc.prems(1) nw]
  have u: "rollback_wptr k cfg r1 = r" and wf1: "ring_wf (ring_offset cfg k) n r1" by simp_all
  from Suc.IH [OF wf1 rest] have "(rollback_wptr k cfg ^^ N) r' = r1" .
  then show ?case using u by simp
qed

lemma rollback_empty: "write r = read r \<Longrightarrow> rollback_wptr k cfg r = r"
  by (cases k) (simp_all add: rollback_wptr_def safexcel_cdr_rollback_wptr_def
      safexcel_rdr_rollback_wptr_def)

lemma init_ring_shape:
  assumes "0 < unat entries" "unat offset * unat entries < 2 ^ 32"
    and "init_ring (Some b) offset entries = Inr r0"
  shows "r0 = ring_of b offset (unat entries) 0 0"
proof -
  have "entries \<noteq> 0" using assms(1) by (simp add: unat_gt_0)
  then have e1: "unat (entries - 1) = unat entries - 1"
    by (rule unat_minus_one)
  have "unat offset * (unat entries - 1) \<le> unat offset * unat entries" by simp
  then have lt: "unat offset * (unat entries - 1) < 2 ^ 32" using assms(2) by linarith
  have u: "unat (offset * (entries - 1)) = unat offset * (unat entries - 1)"
    using lt by (simp add: unat_word_ariths e1)
  have "(ucast (offset * (entries - 1)) :: addr) = of_nat (unat (offset * (entries - 1)))"
    by simp
  then have "(ucast (offset * (entries - 1)) :: addr) = of_nat (unat offset * (unat entries - 1))"
    by (simp only: u)
  then show ?thesis
    using assms(3) by (simp add: init_ring_def ring_of_def slot_addr_def)
qed

lemma init_ring_inv:
  assumes "0 < unat (ring_offset cfg k)" "0 < unat entries"
    and "unat (ring_offset cfg k) * unat entries < 2 ^ 32"
    and "init_ring (Some b) (ring_offset cfg k) entries = Inr r0"
  shows "ring_inv k cfg (unat entries) (r0, 0)"
proof -
  let ?o = "ring_offset cfg k"
  have r0: "r0 = ring_of b ?o (unat entries) 0 0"
    by (rule init_ring_shape [OF assms(2,3,4)])
  have big: "unat ?o * unat entries < 2 ^ 64"
    using assms(3) by (rule less_trans) simp
  show ?thesis
    unfolding ring_inv_def r0
    using ring_wf_ring_of [OF assms(1,2) big assms(2,2), of b]
      ring_count_ring_of [OF assms(1) big assms(2,2), of b]
    by simp
qed


lemma demo_run: "ring_run CDR demo_config (demo_ring, 0) demo_ops =
   (\<lparr>base = 0x1000, base_end = 0x10c0, write = 0x1000, read = 0x1080\<rparr>, 2)"
  by (simp add: demo_ops_def demo_ring_def demo_config_def next_wptr_def next_rptr_def
      safexcel_cdr_next_wptr_def safexcel_cdr_next_rptr_def Let_def)

lemma demo_disc: "disciplined CDR demo_config (demo_ring, 0) demo_ops"
  by (simp add: demo_ops_def demo_ring_def demo_config_def next_wptr_def next_rptr_def
      safexcel_cdr_next_wptr_def safexcel_cdr_next_rptr_def Let_def)

lemma demo_init: "init_ring (Some 0x1000) (ring_offset demo_config CDR) (ring_entries demo_config) = Inr demo_ring"
  by (simp add: init_ring_def demo_config_def demo_ring_def ring_offset_def)


text \<open>
  C1 (amended). Take a command or result ring as \<^verbatim>\<open>safexcel_init_ring_descriptors\<close>
  makes it and any sequence of reservations, rollbacks and reads in which a slot is read
  only after it was reserved. Then the number \<open>c\<close> of reserved, unread slots is at most
  the capacity minus one and is the distance from the read to the write cursor; the ring
  is empty exactly when both cursors are equal; the next reservation reports
  \<^verbatim>\<open>-ENOMEM\<close> exactly when \<open>c\<close> is the capacity minus one, which is exactly when the
  write cursor equals the read cursor minus one stride, or the read cursor is at the
  first slot and the write cursor at the last; otherwise it returns the write cursor as
  it was and moves it one stride on, to the base from the last slot.
\<close>

theorem ring_capacity_invariant:
  assumes "0 < unat (ring_offset cfg k)" "0 < unat (ring_entries cfg)"
    and "unat (ring_offset cfg k) * unat (ring_entries cfg) < 2 ^ 32"
    and "init_ring (Some b) (ring_offset cfg k) (ring_entries cfg) = Inr r0"
    and "disciplined k cfg (r0, 0) ops"
    and "ring_run k cfg (r0, 0) ops = (r, c)"
  shows "c \<le> unat (ring_entries cfg) - 1 \<and>
         c = ring_count (ring_offset cfg k) (unat (ring_entries cfg)) r \<and>
         (write r = read r \<longleftrightarrow> c = 0) \<and>
         (fst (next_wptr k cfg r) = Inl ENOMEM \<longleftrightarrow> c = unat (ring_entries cfg) - 1) \<and>
         (fst (next_wptr k cfg r) = Inl ENOMEM \<longleftrightarrow>
            write r = read r - ucast (ring_offset cfg k) \<or>
            (read r = base r \<and> write r = base_end r)) \<and>
         (c \<noteq> unat (ring_entries cfg) - 1 \<longrightarrow>
            next_wptr k cfg r =
              (Inr (write r),
               r\<lparr>write := (if write r = base_end r then base r
                             else write r + ucast (ring_offset cfg k))\<rparr>))"
proof -
  let ?n = "unat (ring_entries cfg)"
  have "ring_inv k cfg ?n (ring_run k cfg (r0, 0) ops)"
    by (rule ring_run_inv [OF init_ring_inv [OF assms(1,2,3,4)] assms(5)])
  then have inv: "ring_inv k cfg ?n (r, c)" using assms(6) by simp
  have code: "fst (next_wptr k cfg r) = Inl ENOMEM \<longleftrightarrow>
            write r = read r - ucast (ring_offset cfg k) \<or>
            (read r = base r \<and> write r = base_end r)"
    by (cases k) (simp_all add: next_wptr_def ring_offset_def safexcel_cdr_next_wptr_def
        safexcel_rdr_next_wptr_def Let_def)
  have cnt: "c = ring_count (ring_offset cfg k) ?n r"
    using inv by (simp add: ring_inv_def)
  show ?thesis
    using ring_inv_facts [OF inv] code cnt by blast
qed

theorem ring_capacity_invariant_witness:
  "disciplined CDR demo_config (demo_ring, 0) demo_ops \<and>
   ring_run CDR demo_config (demo_ring, 0) demo_ops = (demo_ring\<lparr>read := 0x1080\<rparr>, 2) \<and>
   (2::nat) \<le> unat (ring_entries demo_config) - 1 \<and>
   next_wptr CDR demo_config (demo_ring\<lparr>read := 0x1080\<rparr>) =
     (Inr 0x1000, demo_ring\<lparr>read := 0x1080, write := 0x1040\<rparr>)"
proof -
  have h1: "0 < unat (ring_offset demo_config CDR)"
    by (simp add: demo_config_def ring_offset_def)
  have h2: "0 < unat (ring_entries demo_config)"
    by (simp add: demo_config_def)
  have h3: "unat (ring_offset demo_config CDR) * unat (ring_entries demo_config) < 2 ^ 32"
    by (simp add: demo_config_def ring_offset_def)
  have run: "ring_run CDR demo_config (demo_ring, 0) demo_ops = (demo_ring\<lparr>read := 0x1080\<rparr>, 2)"
    using demo_run by (simp add: demo_ring_def)
  from ring_capacity_invariant [OF h1 h2 h3 demo_init demo_disc run]
  show ?thesis
    using demo_disc run by (simp add: demo_config_def demo_ring_def ring_offset_def)
qed

text \<open>
  C1 (as stated) fails in its description of the full ring. After two reservations,
  two reads and two more reservations on a ring of four slots, the write cursor is at
  slot 0 and the read cursor at slot 2: advancing the write cursor by one stride makes it
  equal to the read cursor minus one stride, yet the ring holds two slots only and the
  next reservation succeeds.
\<close>

theorem ring_full_counterexample:
  "disciplined CDR demo_config (demo_ring, 0) demo_ops \<and>
   spec_ring_full (cd_offset demo_config) (fst (ring_run CDR demo_config (demo_ring, 0) demo_ops)) \<and>
   fst (safexcel_cdr_next_wptr demo_config (fst (ring_run CDR demo_config (demo_ring, 0) demo_ops)))
     = Inr 0x1000"
  unfolding demo_run using demo_disc
  by (simp add: spec_ring_full_def demo_config_def safexcel_cdr_next_wptr_def)

text \<open>
  C7. From a well-formed ring, after \<open>N\<close> successful reservations in a row (no read in
  between), \<open>N\<close> rollbacks give back the ring as it was, write cursor included, also
  when the reservations went through the end of the ring; and a rollback on a ring whose
  write and read cursors are equal changes nothing.
\<close>

theorem rollback_restores_write_cursor:
  assumes "ring_wf (ring_offset cfg k) n r" "reserve_n k cfg N r = Some r'"
  shows "(rollback_wptr k cfg ^^ N) r' = r \<and>
         (write r0 = read r0 \<longrightarrow> rollback_wptr k cfg r0 = r0)"
  using reserve_rollback [OF assms] rollback_empty [of r0 k cfg] by simp

theorem rollback_restores_write_cursor_witness:
  "reserve_n CDR demo_config (Suc (Suc 0)) (demo_ring\<lparr>write := 0x10c0, read := 0x1080\<rparr>) =
     Some (demo_ring\<lparr>write := 0x1040, read := 0x1080\<rparr>) \<and>
   (safexcel_cdr_rollback_wptr demo_config ^^ Suc (Suc 0))
      (demo_ring\<lparr>write := 0x1040, read := 0x1080\<rparr>) =
     demo_ring\<lparr>write := 0x10c0, read := 0x1080\<rparr> \<and>
   safexcel_cdr_rollback_wptr demo_config demo_ring = demo_ring"
proof -
  have wf: "ring_wf (ring_offset demo_config CDR) 4 (demo_ring\<lparr>write := 0x10c0, read := 0x1080\<rparr>)"
    by (simp add: ring_wf_def ring_index_def ring_of_def slot_addr_def demo_ring_def
        demo_config_def ring_offset_def)
  have res: "reserve_n CDR demo_config (Suc (Suc 0))
                (demo_ring\<lparr>write := 0x10c0, read := 0x1080\<rparr>) =
     Some (demo_ring\<lparr>write := 0x1040, read := 0x1080\<rparr>)"
    by (simp add: next_wptr_def safexcel_cdr_next_wptr_def demo_ring_def
        demo_config_def Let_def)
  have eq: "write demo_ring = read demo_ring" by (simp add: demo_ring_def)
  from rollback_restores_write_cursor [OF wf res, of demo_ring]
  show ?thesis using res eq by (simp add: rollback_wptr_def)
qed

section \<open>Ownership words\<close>

lemma own_poll_timeout:
  "\<forall>j<c. loads (k + j) \<noteq> EIP197_OWNERSHIP_MAGIC \<Longrightarrow> own_poll (Suc c) k loads = (0, k + c)"
proof (induction c arbitrary: k)
  case 0
  show ?case by simp
next
  case (Suc c)
  from Suc.prems have first: "loads k \<noteq> EIP197_OWNERSHIP_MAGIC" by force
  have "\<forall>j<c. loads (Suc k + j) \<noteq> EIP197_OWNERSHIP_MAGIC"
  proof (intro allI impI)
    fix j assume "j < c"
    then have "Suc j < Suc c" by simp
    with Suc.prems have "loads (k + Suc j) \<noteq> EIP197_OWNERSHIP_MAGIC" by blast
    then show "loads (Suc k + j) \<noteq> EIP197_OWNERSHIP_MAGIC" by simp
  qed
  from Suc.IH [OF this] first show ?case by simp
qed

lemma own_poll_found:
  "j < c \<Longrightarrow> loads (k + j) = EIP197_OWNERSHIP_MAGIC \<Longrightarrow>
   \<forall>i<j. loads (k + i) \<noteq> EIP197_OWNERSHIP_MAGIC \<Longrightarrow>
   own_poll (Suc c) k loads = (c - j, k + j)"
proof (induction c arbitrary: k j)
  case 0
  then show ?case by simp
next
  case (Suc c)
  show ?case
  proof (cases j)
    case 0
    with Suc.prems show ?thesis by simp
  next
    case (Suc j')
    from Suc.prems(3) Suc have first: "loads k \<noteq> EIP197_OWNERSHIP_MAGIC" by force
    have lt: "j' < c" using Suc.prems(1) Suc by simp
    have at: "loads (Suc k + j') = EIP197_OWNERSHIP_MAGIC" using Suc.prems(2) Suc by simp
    have before: "\<forall>i<j'. loads (Suc k + i) \<noteq> EIP197_OWNERSHIP_MAGIC"
    proof (intro allI impI)
      fix i assume "i < j'"
      then have "Suc i < j" using Suc by simp
      with Suc.prems(3) have "loads (k + Suc i) \<noteq> EIP197_OWNERSHIP_MAGIC" by blast
      then show "loads (Suc k + i) \<noteq> EIP197_OWNERSHIP_MAGIC" by simp
    qed
    from Suc.IH [OF lt at before] first Suc show ?thesis by simp
  qed
qed

lemma own_poll_cases:
  "(own_poll (Suc c) k loads = (0, k + c) \<and> (\<forall>j<c. loads (k + j) \<noteq> EIP197_OWNERSHIP_MAGIC)) \<or>
   (\<exists>j<c. loads (k + j) = EIP197_OWNERSHIP_MAGIC \<and>
           (\<forall>i<j. loads (k + i) \<noteq> EIP197_OWNERSHIP_MAGIC) \<and>
           own_poll (Suc c) k loads = (c - j, k + j))"
proof (cases "\<forall>j<c. loads (k + j) \<noteq> EIP197_OWNERSHIP_MAGIC")
  case True
  then show ?thesis using own_poll_timeout by blast
next
  case False
  then have ex: "\<exists>j. j < c \<and> loads (k + j) = EIP197_OWNERSHIP_MAGIC" by blast
  define j where "j = (LEAST j. j < c \<and> loads (k + j) = EIP197_OWNERSHIP_MAGIC)"
  have j: "j < c \<and> loads (k + j) = EIP197_OWNERSHIP_MAGIC"
    unfolding j_def using ex by (rule LeastI_ex)
  have min: "\<forall>i<j. loads (k + i) \<noteq> EIP197_OWNERSHIP_MAGIC"
  proof (intro allI impI)
    fix i assume lt: "i < j"
    then have "\<not> (i < c \<and> loads (k + i) = EIP197_OWNERSHIP_MAGIC)"
      unfolding j_def by (rule not_less_Least)
    moreover have "i < c" using lt j by simp
    ultimately show "loads (k + i) \<noteq> EIP197_OWNERSHIP_MAGIC" by simp
  qed
  from own_poll_found [of j c loads k] j min show ?thesis by blast
qed


lemma poll_count_9: "EIP197_OWN_POLL_COUNT = Suc 9"
  by (simp add: EIP197_OWN_POLL_COUNT_def)

lemma magic_not_complement: "NOT EIP197_OWNERSHIP_MAGIC \<noteq> EIP197_OWNERSHIP_MAGIC"
  by (simp add: EIP197_OWNERSHIP_MAGIC_def)

lemma next_rptr_timeout:
  assumes "\<forall>k<9. word32 (dev k) (rd + ucast (own_offset cfg)) \<noteq> EIP197_OWNERSHIP_MAGIC"
  shows "safexcel_rdr_next_rptr cfg ring rd dev = (Inl ENOENT, rd, dev 9)"
proof -
  have "own_poll (Suc 9) 0 (\<lambda>k. word32 (dev k) (rd + ucast (own_offset cfg))) = (0, 0 + 9)"
    by (rule own_poll_timeout) (use assms in simp)
  then show ?thesis
    by (simp add: safexcel_rdr_next_rptr_def poll_count_9 EIP197_RD_OWN_WORD_def Let_def)
qed

lemma next_rptr_ready:
  assumes "j < 9" "word32 (dev j) (rd + ucast (own_offset cfg)) = EIP197_OWNERSHIP_MAGIC"
    and "\<forall>i<j. word32 (dev i) (rd + ucast (own_offset cfg)) \<noteq> EIP197_OWNERSHIP_MAGIC"
  shows "safexcel_rdr_next_rptr cfg ring rd dev =
     (Inr rd,
      if rd = base_end ring then base ring else rd + ucast (rd_offset cfg),
      (dev j)\<lparr>word32 := (word32 (dev j))
                 (rd + ucast (own_offset cfg) := NOT EIP197_OWNERSHIP_MAGIC)\<rparr>)"
proof -
  have "own_poll (Suc 9) 0 (\<lambda>k. word32 (dev k) (rd + ucast (own_offset cfg))) = (9 - j, 0 + j)"
    by (rule own_poll_found) (use assms in simp_all)
  moreover have "9 - j \<noteq> 0" using assms(1) by simp
  ultimately show ?thesis
    by (simp add: safexcel_rdr_next_rptr_def poll_count_9 EIP197_RD_OWN_WORD_def Let_def)
qed

text \<open>
  C2. With ownership words enabled, \<^verbatim>\<open>safexcel_rdr_next_rptr\<close> polls the ownership
  word of the slot at most nine times. It returns the slot only if one of these loads
  saw the magic value; it then writes the complement of the magic value over the word,
  so that a second read of the same slot, with no device write in between, is refused.
  If none of the nine loads sees the magic value the call returns \<^verbatim>\<open>-ENOENT\<close>, and
  whenever it returns an error the error is \<^verbatim>\<open>-ENOENT\<close>, the caller's cursor is
  unchanged and the memory is as the device left it.
\<close>

theorem rdr_ownership_gating:
  "(\<forall>p rd' m. safexcel_rdr_next_rptr cfg ring rd dev = (Inr p, rd', m) \<longrightarrow>
      p = rd \<and>
      (\<exists>k<9. word32 (dev k) (rd + ucast (own_offset cfg)) = EIP197_OWNERSHIP_MAGIC \<and>
              m = (dev k)\<lparr>word32 := (word32 (dev k))
                        (rd + ucast (own_offset cfg) := NOT EIP197_OWNERSHIP_MAGIC)\<rparr>) \<and>
      word32 m (rd + ucast (own_offset cfg)) \<noteq> EIP197_OWNERSHIP_MAGIC \<and>
      safexcel_rdr_next_rptr cfg ring rd (\<lambda>k. m) = (Inl ENOENT, rd, m)) \<and>
   ((\<forall>k<9. word32 (dev k) (rd + ucast (own_offset cfg)) \<noteq> EIP197_OWNERSHIP_MAGIC) \<longrightarrow>
      safexcel_rdr_next_rptr cfg ring rd dev = (Inl ENOENT, rd, dev 9)) \<and>
   (\<forall>e rd' m. safexcel_rdr_next_rptr cfg ring rd dev = (Inl e, rd', m) \<longrightarrow>
      e = ENOENT \<and> rd' = rd \<and> m = dev 9 \<and>
      (\<forall>k<9. word32 (dev k) (rd + ucast (own_offset cfg)) \<noteq> EIP197_OWNERSHIP_MAGIC))"
proof -
  let ?own = "rd + ucast (own_offset cfg)"
  let ?M = EIP197_OWNERSHIP_MAGIC
  consider (timeout) "\<forall>k<9. word32 (dev k) ?own \<noteq> ?M"
    | (ready) j where "j < 9" "word32 (dev j) ?own = ?M" "\<forall>i<j. word32 (dev i) ?own \<noteq> ?M"
    using own_poll_cases [of 9 0 "\<lambda>k. word32 (dev k) ?own"] by auto
  then show ?thesis
  proof cases
    case timeout
    from next_rptr_timeout [OF timeout] timeout show ?thesis by simp
  next
    case ready
    let ?m = "(dev j)\<lparr>word32 := (word32 (dev j))(?own := NOT ?M)\<rparr>"
    have res: "safexcel_rdr_next_rptr cfg ring rd dev =
      (Inr rd, if rd = base_end ring then base ring else rd + ucast (rd_offset cfg), ?m)"
      by (rule next_rptr_ready [OF ready])
    have cleared: "word32 ?m ?own \<noteq> ?M" using magic_not_complement by simp
    then have "\<forall>k<9. word32 ((\<lambda>k. ?m) k) ?own \<noteq> ?M" by simp
    from next_rptr_timeout [OF this]
    have again: "safexcel_rdr_next_rptr cfg ring rd (\<lambda>k. ?m) = (Inl ENOENT, rd, ?m)" .
    have ex: "\<exists>k<9. word32 (dev k) ?own = ?M \<and> ?m = (dev k)\<lparr>word32 := (word32 (dev k))(?own := NOT ?M)\<rparr>"
      using ready(1,2) by blast
    have nt: "\<not> (\<forall>k<9. word32 (dev k) ?own \<noteq> ?M)" using ready(1,2) by blast
    show ?thesis unfolding res using cleared again ex nt by simp
  qed
qed

theorem rdr_ownership_gating_witness:
  "safexcel_rdr_next_rptr demo_config demo_ring 0x1000 (\<lambda>k. demo_mem 0) =
     (Inl ENOENT, 0x1000, demo_mem 0) \<and>
   safexcel_rdr_next_rptr demo_config demo_ring 0x1000 demo_dev =
     (Inr 0x1000, 0x1040, demo_mem_read) \<and>
   safexcel_rdr_next_rptr demo_config demo_ring 0x1000 (\<lambda>k. demo_mem_read) =
     (Inl ENOENT, 0x1000, demo_mem_read)"
proof -
  have a: "\<forall>k<9. word32 (demo_mem 0) (0x1000 + ucast (own_offset demo_config)) \<noteq>
                  EIP197_OWNERSHIP_MAGIC"
    by (simp add: demo_mem_def demo_config_def EIP197_OWNERSHIP_MAGIC_def)
  have h1: "(3::nat) < 9" by simp
  have h2: "word32 (demo_dev 3) (0x1000 + ucast (own_offset demo_config)) = EIP197_OWNERSHIP_MAGIC"
    by (simp add: demo_dev_def demo_mem_def demo_config_def)
  have h3: "\<forall>i<3. word32 (demo_dev i) (0x1000 + ucast (own_offset demo_config)) \<noteq>
                  EIP197_OWNERSHIP_MAGIC"
    by (simp add: demo_dev_def demo_mem_def demo_config_def EIP197_OWNERSHIP_MAGIC_def)
  have b: "safexcel_rdr_next_rptr demo_config demo_ring 0x1000 demo_dev =
     (Inr 0x1000, 0x1040, demo_mem_read)"
    unfolding next_rptr_ready [OF h1 h2 h3] demo_mem_read_def
    by (simp add: demo_ring_def demo_config_def)
  note t1 = rdr_ownership_gating [of demo_config demo_ring "0x1000" "\<lambda>k. demo_mem 0",
      THEN conjunct2, THEN conjunct1, rule_format, OF a [rule_format]]
  note t2 = rdr_ownership_gating [of demo_config demo_ring "0x1000" demo_dev,
      THEN conjunct1, rule_format, OF b]
  from t2 have c: "safexcel_rdr_next_rptr demo_config demo_ring 0x1000 (\<lambda>k. demo_mem_read) =
     (Inl ENOENT, 0x1000, demo_mem_read)" by (elim conjE)
  from t1 b c show ?thesis by (intro conjI)
qed

section \<open>Result descriptor errors\<close>

text \<open>
  C4 (amended). The result is success exactly for the code zero, and the
  authentication failure \<^verbatim>\<open>-EBADMSG\<close> exactly for the code \<^verbatim>\<open>BIT(9)\<close>. A code
  with one of the bits of the mask \<^verbatim>\<open>0x407f\<close> set gives the fatal \<^verbatim>\<open>-EIO\<close>. A nonzero
  code other than \<^verbatim>\<open>BIT(9)\<close> with none of the bits 0-7 and 14 set is not fatal:
  it gives \<^verbatim>\<open>-EINVAL\<close>.
\<close>

theorem rdesc_check_errors_cases:
  "(safexcel_rdesc_check_errors e = Inr () \<longleftrightarrow> e = 0) \<and>
   (safexcel_rdesc_check_errors e = Inl EBADMSG \<longleftrightarrow> e = 0x200) \<and>
   (e AND 0x407f \<noteq> 0 \<longrightarrow> safexcel_rdesc_check_errors e = Inl EIO) \<and>
   (e \<noteq> 0 \<and> e \<noteq> 0x200 \<and> e AND 0x40ff = 0 \<longrightarrow> safexcel_rdesc_check_errors e = Inl EINVAL)"
proof -
  have a: "e AND 0x40ff = 0 \<Longrightarrow> e AND 0x407f = 0"
  proof -
    assume h: "e AND 0x40ff = 0"
    have "e AND 0x407f = (e AND 0x40ff) AND 0x407f"
      by (simp add: and.assoc)
    then show ?thesis using h by simp
  qed
  have b: "(0x200 :: 15 word) AND 0x407f = 0" by simp
  show ?thesis
    using a b by (auto simp: safexcel_rdesc_check_errors_def)
qed

theorem rdesc_check_errors_cases_witness:
  "safexcel_rdesc_check_errors 0x41 = Inl EIO \<and>
   safexcel_rdesc_check_errors 0x400 = Inl EINVAL"
  using rdesc_check_errors_cases [of "0x41"] rdesc_check_errors_cases [of "0x400"]
  by simp

text \<open>
  C4 (as stated) fails: the code \<^verbatim>\<open>0x100\<close> (bit 8) is nonzero and is not the
  authentication pattern, yet the result is \<^verbatim>\<open>-EINVAL\<close>, not the fatal \<^verbatim>\<open>-EIO\<close>.
\<close>

theorem rdesc_check_errors_counterexample:
  "(0x100 :: 15 word) \<noteq> 0 \<and> (0x100 :: 15 word) \<noteq> push_bit 9 1 \<and>
   safexcel_rdesc_check_errors 0x100 \<noteq> Inl EIO"
  by (simp add: safexcel_rdesc_check_errors_def)

section \<open>Scanning for a complete result\<close>

lemma own_plus_4:
  assumes "4 \<le> (x :: u32)"
  shows "(ucast (x - 4) :: addr) + 4 = ucast x"
proof -
  have "unat (x - 4) = unat x - 4"
    using assms by (simp add: unat_sub)
  moreover have "4 \<le> unat x" using assms by (simp add: word_le_nat_alt)
  ultimately have eq: "unat (x - 4) + 4 = unat x" by simp
  have "(ucast (x - 4) :: addr) + 4 = of_nat (unat (x - 4)) + of_nat 4" by simp
  also have "\<dots> = of_nat (unat (x - 4) + 4)" by (simp only: of_nat_add)
  also have "\<dots> = of_nat (unat x)" by (simp only: eq)
  also have "\<dots> = ucast x" by simp
  finally show ?thesis .
qed

lemma scan_step:
  assumes wf: "ring_wf (rd_offset cfg) n ring"
    and off: "4 \<le> rd_offset cfg" "own_offset cfg = rd_offset cfg - 4"
  shows "rdr_scan_loop cfg ring m (rdr_slot cfg ring n j)
           (rdr_slot cfg ring n j + ucast (own_offset cfg)) =
     (if word32 m (rdr_slot cfg ring n j + ucast (own_offset cfg)) = EIP197_OWNERSHIP_MAGIC
      then (if rd_last_seg m (rdr_slot cfg ring n j) then Some True
            else rdr_scan_loop cfg ring m (rdr_slot cfg ring n (Suc j))
                   (rdr_slot cfg ring n (Suc j) + ucast (own_offset cfg)))
      else Some False)"
proof -
  let ?o = "rd_offset cfg"
  from wf obtain wi ri where i: "wi < n" "ri < n" and r: "ring = ring_of (base ring) ?o n wi ri"
    and g: "0 < unat ?o" "0 < n" "unat ?o * n < 2 ^ 64"
    by (rule ring_wf_cases)
  define b where "b = base ring"
  have be: "base_end ring = slot_addr b ?o (n - 1)"
    using r b_def by (metis ring_of_def safexcel_desc_ring.select_convs(2))
  define p where "p = (ring_index ring ?o (read ring) + j) mod n"
  have p: "p < n" unfolding p_def using g(2) by simp
  have next_p: "(ring_index ring ?o (read ring) + Suc j) mod n = Suc p mod n"
    unfolding p_def by (simp add: mod_Suc_eq)
  have sj: "rdr_slot cfg ring n j = slot_addr b ?o p"
    unfolding rdr_slot_def p_def b_def ..
  have sj': "rdr_slot cfg ring n (Suc j) = slot_addr b ?o (Suc p mod n)"
    unfolding rdr_slot_def next_p b_def ..
  note f = rptr_facts [OF g(3,1) p, of b]
  have four: "slot_addr b ?o p + ucast (own_offset cfg) + 4 = slot_addr b ?o p + ucast ?o"
    using own_plus_4 [OF off(1)] off(2) by (simp add: add.assoc)
  have more: "slot_addr b ?o p + ucast (own_offset cfg) + ucast ?o =
              slot_addr b ?o p + ucast ?o + ucast (own_offset cfg)"
    by (simp add: add.assoc add.commute)
  show ?thesis
    unfolding sj sj'
    apply (subst rdr_scan_loop.simps)
    unfolding be four more
    using f by (simp add: b_def)
qed


lemma rdr_slot_0:
  assumes "ring_wf (rd_offset cfg) n ring"
  shows "rdr_slot cfg ring n 0 = read ring"
proof -
  let ?o = "rd_offset cfg"
  from assms have lt: "ring_index ring ?o (read ring) < n"
    and r: "ring = ring_of (base ring) ?o n (ring_index ring ?o (write ring))
                     (ring_index ring ?o (read ring))"
    by (simp_all add: ring_wf_def)
  have "read ring = slot_addr (base ring) ?o (ring_index ring ?o (read ring))"
    by (subst r) (simp add: ring_of_def)
  then show ?thesis using lt by (simp add: rdr_slot_def)
qed

lemma scan_skip:
  assumes wf: "ring_wf (rd_offset cfg) n ring"
    and off: "4 \<le> rd_offset cfg" "own_offset cfg = rd_offset cfg - 4"
    and run: "\<forall>j<k. word32 m (rdr_slot cfg ring n j + ucast (own_offset cfg)) =
                       EIP197_OWNERSHIP_MAGIC \<and> \<not> rd_last_seg m (rdr_slot cfg ring n j)"
  shows "rdr_scan_loop cfg ring m (rdr_slot cfg ring n 0)
           (rdr_slot cfg ring n 0 + ucast (own_offset cfg)) =
         rdr_scan_loop cfg ring m (rdr_slot cfg ring n k)
           (rdr_slot cfg ring n k + ucast (own_offset cfg))"
  using run
proof (induction k)
  case 0
  show ?case ..
next
  case (Suc k)
  then have "rdr_scan_loop cfg ring m (rdr_slot cfg ring n 0)
           (rdr_slot cfg ring n 0 + ucast (own_offset cfg)) =
         rdr_scan_loop cfg ring m (rdr_slot cfg ring n k)
           (rdr_slot cfg ring n k + ucast (own_offset cfg))" by simp
  also have "\<dots> = rdr_scan_loop cfg ring m (rdr_slot cfg ring n (Suc k))
           (rdr_slot cfg ring n (Suc k) + ucast (own_offset cfg))"
    using Suc.prems by (subst scan_step [OF wf off]) simp
  finally show ?case .
qed

lemma scan_never_returns:
  assumes wf: "ring_wf (rd_offset cfg) n ring"
    and off: "4 \<le> rd_offset cfg" "own_offset cfg = rd_offset cfg - 4"
    and run: "\<forall>j. word32 m (rdr_slot cfg ring n j + ucast (own_offset cfg)) =
                       EIP197_OWNERSHIP_MAGIC \<and> \<not> rd_last_seg m (rdr_slot cfg ring n j)"
  shows "rdr_scan_loop cfg ring m (rdr_slot cfg ring n 0)
           (rdr_slot cfg ring n 0 + ucast (own_offset cfg)) = None"
proof -
  let ?P = "\<lambda>cfg' ring' m' rdesc own (y::bool).
     (cfg' = cfg \<and> ring' = ring \<and> m' = m \<and>
      (\<exists>j. rdesc = rdr_slot cfg ring n j \<and>
           own = rdr_slot cfg ring n j + ucast (own_offset cfg))) \<longrightarrow> False"
  have key: "?P cfg' ring' m' rdesc own y"
    if "rdr_scan_loop cfg' ring' m' rdesc own = Some y" for cfg' ring' m' rdesc own y
  proof (rule rdr_scan_loop.raw_induct [where P = ?P, OF _ that])
    fix f :: "safexcel_config \<Rightarrow> safexcel_desc_ring \<Rightarrow> rdr_mem \<Rightarrow> addr \<Rightarrow> addr \<Rightarrow> bool option"
    fix cfg' ring' m' rdesc own y
    assume IH: "\<And>cfg' ring' m' rdesc own y. f cfg' ring' m' rdesc own = Some y \<Longrightarrow>
                  ?P cfg' ring' m' rdesc own y"
    assume body: "(if word32 m' own = EIP197_OWNERSHIP_MAGIC
      then if rd_last_seg m' rdesc then Some True
           else if rdesc = base_end ring'
                then f cfg' ring' m' (base ring') (base ring' + ucast (own_offset cfg'))
                else f cfg' ring' m' (own + 4) (own + ucast (rd_offset cfg'))
      else Some False) = Some y"
    show "?P cfg' ring' m' rdesc own y"
    proof
    assume "cfg' = cfg \<and> ring' = ring \<and> m' = m \<and>
      (\<exists>j. rdesc = rdr_slot cfg ring n j \<and>
           own = rdr_slot cfg ring n j + ucast (own_offset cfg))"
    then obtain j where eqs: "cfg' = cfg" "ring' = ring" "m' = m"
      and j: "rdesc = rdr_slot cfg ring n j" "own = rdr_slot cfg ring n j + ucast (own_offset cfg)"
      by blast
    let ?o = "rd_offset cfg"
    from wf obtain wi ri where g: "0 < unat ?o" "0 < n" "unat ?o * n < 2 ^ 64"
      and r: "ring = ring_of (base ring) ?o n wi ri"
      by (rule ring_wf_cases)
    define b where "b = base ring"
    have be: "base_end ring = slot_addr b ?o (n - 1)"
      using r b_def by (metis ring_of_def safexcel_desc_ring.select_convs(2))
    define p where "p = (ring_index ring ?o (read ring) + j) mod n"
    have p: "p < n" unfolding p_def using g(2) by simp
    have next_p: "(ring_index ring ?o (read ring) + Suc j) mod n = Suc p mod n"
      unfolding p_def by (simp add: mod_Suc_eq)
    have sj: "rdr_slot cfg ring n j = slot_addr b ?o p"
      unfolding rdr_slot_def p_def b_def ..
    have sj': "rdr_slot cfg ring n (Suc j) = slot_addr b ?o (Suc p mod n)"
      unfolding rdr_slot_def next_p b_def ..
    note f = rptr_facts [OF g(3,1) p, of b]
    have four: "slot_addr b ?o p + ucast (own_offset cfg) + 4 = slot_addr b ?o p + ucast ?o"
      using own_plus_4 [OF off(1)] off(2) by (simp add: add.assoc)
    have more: "slot_addr b ?o p + ucast (own_offset cfg) + ucast ?o =
                slot_addr b ?o p + ucast ?o + ucast (own_offset cfg)"
      by (simp add: add.assoc add.commute)
    from run have here: "word32 m own = EIP197_OWNERSHIP_MAGIC" "\<not> rd_last_seg m rdesc"
      unfolding j by simp_all
    have nxt: "(if rdesc = base_end ring then base ring else own + 4) = rdr_slot cfg ring n (Suc j)"
      unfolding j sj sj' be four using f by (simp add: b_def)
    have nxt_own: "(if rdesc = base_end ring then base ring + ucast (own_offset cfg)
                    else own + ucast ?o) = rdr_slot cfg ring n (Suc j) + ucast (own_offset cfg)"
      unfolding j sj sj' be more using f by (simp add: b_def)
    from body here eqs
    have call: "f cfg ring m (if rdesc = base_end ring then base ring else own + 4)
                  (if rdesc = base_end ring then base ring + ucast (own_offset cfg)
                   else own + ucast ?o) = Some y"
      by (simp split: if_splits)
    from IH [OF call [unfolded nxt nxt_own]] show False by blast
    qed
  qed
  have no: "rdr_scan_loop cfg ring m (rdr_slot cfg ring n 0)
           (rdr_slot cfg ring n 0 + ucast (own_offset cfg)) \<noteq> Some y" for y
  proof
    assume "rdr_scan_loop cfg ring m (rdr_slot cfg ring n 0)
           (rdr_slot cfg ring n 0 + ucast (own_offset cfg)) = Some y"
    from key [OF this] show False by blast
  qed
  show ?thesis
  proof (cases "rdr_scan_loop cfg ring m (rdr_slot cfg ring n 0)
           (rdr_slot cfg ring n 0 + ucast (own_offset cfg))")
    case None
    then show ?thesis .
  next
    case (Some y)
    with no show ?thesis by blast
  qed
qed


lemma scan_loop_cases:
  fixes m :: rdr_mem
  assumes wf: "ring_wf (rd_offset cfg) n ring"
    and off: "4 \<le> rd_offset cfg" "own_offset cfg = rd_offset cfg - 4"
  defines "res \<equiv> rdr_scan_loop cfg ring m (rdr_slot cfg ring n 0)
                    (rdr_slot cfg ring n 0 + ucast (own_offset cfg))"
    and "mark \<equiv> \<lambda>j. word32 m (rdr_slot cfg ring n j + ucast (own_offset cfg)) =
                       EIP197_OWNERSHIP_MAGIC"
    and "lseg \<equiv> \<lambda>j. rd_last_seg m (rdr_slot cfg ring n j)"
  shows "(spec_full_result_ready cfg ring m n \<and> res = Some True) \<or>
         (\<not> spec_full_result_ready cfg ring m n \<and> (\<exists>j. \<not> mark j) \<and> res = Some False) \<or>
         (\<not> spec_full_result_ready cfg ring m n \<and> (\<forall>j. mark j \<and> \<not> lseg j) \<and> res = None)"
proof -
  have ready_def: "spec_full_result_ready cfg ring m n \<longleftrightarrow> (\<exists>k. (\<forall>j\<le>k. mark j) \<and> lseg k)"
    unfolding spec_full_result_ready_def mark_def lseg_def ..
  have step: "rdr_scan_loop cfg ring m (rdr_slot cfg ring n j)
           (rdr_slot cfg ring n j + ucast (own_offset cfg)) =
     (if mark j
      then (if lseg j then Some True
            else rdr_scan_loop cfg ring m (rdr_slot cfg ring n (Suc j))
                   (rdr_slot cfg ring n (Suc j) + ucast (own_offset cfg)))
      else Some False)" for j
    unfolding mark_def lseg_def by (rule scan_step [OF wf off])
  have skip: "res = rdr_scan_loop cfg ring m (rdr_slot cfg ring n k)
           (rdr_slot cfg ring n k + ucast (own_offset cfg))"
    if "\<forall>j<k. mark j \<and> \<not> lseg j" for k
    unfolding res_def using that unfolding mark_def lseg_def
    by (rule scan_skip [OF wf off])
  show ?thesis
  proof (cases "spec_full_result_ready cfg ring m n")
    case True
    then have ex: "\<exists>k. (\<forall>j\<le>k. mark j) \<and> lseg k" unfolding ready_def .
    define k where "k = (LEAST k. (\<forall>j\<le>k. mark j) \<and> lseg k)"
    have k: "(\<forall>j\<le>k. mark j) \<and> lseg k"
      unfolding k_def using ex by (rule LeastI_ex)
    have before: "\<forall>j<k. mark j \<and> \<not> lseg j"
    proof (intro allI impI conjI)
      fix j assume lt: "j < k"
      then show "mark j" using k by simp
      have "\<not> ((\<forall>i\<le>j. mark i) \<and> lseg j)"
        using lt unfolding k_def by (rule not_less_Least)
      moreover have "\<forall>i\<le>j. mark i" using lt k by simp
      ultimately show "\<not> lseg j" by simp
    qed
    have "res = Some True"
      unfolding skip [OF before] step [of k] using k by simp
    then show ?thesis using True by simp
  next
    case False
    then have no: "\<And>k. (\<forall>j\<le>k. mark j) \<Longrightarrow> \<not> lseg k"
      unfolding ready_def by blast
    show ?thesis
    proof (cases "\<exists>j. \<not> mark j")
      case True
      define k where "k = (LEAST k. \<not> mark k)"
      have k: "\<not> mark k" unfolding k_def using True by (rule LeastI_ex)
      have marks: "mark j" if "j < k" for j
        using that not_less_Least [of j "\<lambda>k. \<not> mark k"] unfolding k_def by blast
      have before: "\<forall>j<k. mark j \<and> \<not> lseg j"
      proof (intro allI impI conjI)
        fix j assume lt: "j < k"
        show "mark j" using marks [OF lt] .
        have "\<forall>i\<le>j. mark i" using lt marks by simp
        then show "\<not> lseg j" by (rule no)
      qed
      have "res = Some False"
        unfolding skip [OF before] step [of k] using k by simp
      then show ?thesis using False True by simp
    next
      case all: False
      then have all_mark: "\<forall>j. mark j" by simp
      then have run: "\<forall>j. mark j \<and> \<not> lseg j" using no by simp
      have "res = None"
        unfolding res_def using run unfolding mark_def lseg_def
        by (rule scan_never_returns [OF wf off])
      then show ?thesis using False run by simp
    qed
  qed
qed

text \<open>
  C8. On a well-formed result ring whose ownership word is the last word of a slot
  (\<^verbatim>\<open>own_offset = rd_offset - 4\<close>, as \<^verbatim>\<open>safexcel_configure\<close> sets it),
  \<^verbatim>\<open>safexcel_rdr_scan_next\<close> returns true exactly when some slot in the run of
  ownership-confirmed slots that starts at the read cursor, wrapping at the end of the
  ring, is a last segment; whatever it returns, the ring and its read cursor are as
  before. It returns false exactly when there is no such slot and the run ends at an
  unconfirmed slot; in the one remaining case, every slot confirmed and none a last
  segment, the walk does not end.
\<close>

theorem rdr_scan_next_iff:
  assumes "ring_wf (rd_offset cfg) n ring"
    and "4 \<le> rd_offset cfg" "own_offset cfg = rd_offset cfg - 4"
  shows "(safexcel_rdr_scan_next cfg ring m = Some (True, ring) \<longleftrightarrow>
            spec_full_result_ready cfg ring m n) \<and>
         (\<forall>b r'. safexcel_rdr_scan_next cfg ring m = Some (b, r') \<longrightarrow> r' = ring) \<and>
         (safexcel_rdr_scan_next cfg ring m = Some (False, ring) \<longleftrightarrow>
            \<not> spec_full_result_ready cfg ring m n \<and>
            (\<exists>j. word32 m (rdr_slot cfg ring n j + ucast (own_offset cfg)) \<noteq>
                   EIP197_OWNERSHIP_MAGIC)) \<and>
         (safexcel_rdr_scan_next cfg ring m = None \<longleftrightarrow>
            (\<forall>j. word32 m (rdr_slot cfg ring n j + ucast (own_offset cfg)) =
                   EIP197_OWNERSHIP_MAGIC \<and> \<not> rd_last_seg m (rdr_slot cfg ring n j)))"
proof -
  have start: "safexcel_rdr_scan_next cfg ring m =
     map_option (\<lambda>b. (b, ring))
       (rdr_scan_loop cfg ring m (rdr_slot cfg ring n 0)
          (rdr_slot cfg ring n 0 + ucast (own_offset cfg)))"
    unfolding safexcel_rdr_scan_next_def rdr_slot_0 [OF assms(1)] ..
  have ready_last: "spec_full_result_ready cfg ring m n \<Longrightarrow>
     \<not> (\<forall>j. word32 m (rdr_slot cfg ring n j + ucast (own_offset cfg)) =
                   EIP197_OWNERSHIP_MAGIC \<and> \<not> rd_last_seg m (rdr_slot cfg ring n j))"
    unfolding spec_full_result_ready_def by blast
  from scan_loop_cases [OF assms, of m] show ?thesis
    unfolding start using ready_last by auto
qed

theorem rdr_scan_next_iff_witness:
  "safexcel_rdr_scan_next demo_config (demo_ring\<lparr>read := 0x10c0\<rparr>) demo_scan_mem =
     Some (True, demo_ring\<lparr>read := 0x10c0\<rparr>) \<and>
   spec_full_result_ready demo_config (demo_ring\<lparr>read := 0x10c0\<rparr>) demo_scan_mem 4"
proof -
  have wf: "ring_wf (rd_offset demo_config) 4 (demo_ring\<lparr>read := 0x10c0\<rparr>)"
    by (simp add: ring_wf_def ring_index_def ring_of_def slot_addr_def demo_ring_def
        demo_config_def)
  have o1: "4 \<le> rd_offset demo_config" by (simp add: demo_config_def)
  have o2: "own_offset demo_config = rd_offset demo_config - 4" by (simp add: demo_config_def)
  have run: "safexcel_rdr_scan_next demo_config (demo_ring\<lparr>read := 0x10c0\<rparr>) demo_scan_mem =
     Some (True, demo_ring\<lparr>read := 0x10c0\<rparr>)"
    unfolding safexcel_rdr_scan_next_def
    apply (subst rdr_scan_loop.simps)
    apply (subst rdr_scan_loop.simps)
    apply (simp add: demo_scan_mem_def demo_ring_def demo_config_def)
    done
  from rdr_scan_next_iff [OF wf o1 o2, of demo_scan_mem] run
  show ?thesis by blast
qed

section \<open>Ring selection\<close>

lemma shift_mod_le:
  assumes "k \<le> k'" "k' < N" "(a + k) mod N = (a + k') mod (N::nat)"
  shows "k = k'"
proof -
  have "a + k \<le> a + k'" using assms(1) by simp
  then have "N dvd (a + k') - (a + k)"
    using assms(3) mod_eq_dvd_iff_nat [of "a + k" "a + k'" N] by simp
  then have d: "N dvd k' - k" by simp
  have "k' - k < N" using assms(2) by simp
  then have "k' - k = 0" using d by (meson dvd_imp_le not_less zero_less_iff_neq_zero)
  then show ?thesis using assms(1) by simp
qed

lemma shift_mod_inj:
  assumes "k < N" "k' < N" "(a + k) mod N = (a + k') mod (N::nat)"
  shows "k = k'"
proof (cases "k \<le> k'")
  case True
  then show ?thesis using assms shift_mod_le by blast
next
  case False
  then have "k' \<le> k" by simp
  then have "k' = k" using assms shift_mod_le [of k' k N a] by simp
  then show ?thesis by simp
qed

lemma sint_small:
  assumes "unat (x :: u32) < 2 ^ 31"
  shows "sint x = int (unat x)"
proof -
  have ux: "uint x = int (unat x)" by (rule uint_nat)
  have "int (unat x) < int (2 ^ 31)" using assms by (simp only: of_nat_less_iff)
  then have lt: "uint x < 2 ^ 31" unfolding ux by simp
  have ge: "- (2 ^ 31) \<le> uint x"
    by (rule order_trans [of _ 0]) simp_all
  have "signed_take_bit 31 (uint x) = uint x"
    using ge lt by (rule signed_take_bit_int_eq_self)
  moreover have "sint x = signed_take_bit 31 (uint x)"
    by (simp add: sint_uint)
  ultimately show ?thesis unfolding ux by simp
qed


lemma select_value:
  assumes "rings cfg \<noteq> 0" "unat (rings cfg) \<le> 2 ^ 31"
  shows "safexcel_select_ring cfg u =
           (Some (int (unat (u + 1) mod unat (rings cfg))), u + 1)"
proof -
  have pos: "0 < unat (rings cfg)" using assms(1) by (simp add: unat_gt_0)
  have "unat ((u + 1) mod rings cfg) = unat (u + 1) mod unat (rings cfg)"
    by (rule unat_mod)
  moreover have "unat (u + 1) mod unat (rings cfg) < unat (rings cfg)"
    using pos by simp
  ultimately have "unat ((u + 1) mod rings cfg) < 2 ^ 31" using assms(2) by linarith
  then have "sint ((u + 1) mod rings cfg) = int (unat ((u + 1) mod rings cfg))"
    by (rule sint_small)
  then have "sint ((u + 1) mod rings cfg) = int (unat (u + 1) mod unat (rings cfg))"
    by (simp only: unat_mod)
  then show ?thesis
    using assms(1) by (simp only: safexcel_select_ring_def Let_def if_False)
qed



lemma unat_succ_u32:
  assumes "unat (u :: u32) + 1 < 2 ^ 32"
  shows "unat (u + 1) = unat u + 1"
proof -
  have "unat (u + 1) = (unat u + unat (1 :: u32)) mod 2 ^ LENGTH(32)"
    by (rule unat_word_ariths(1))
  also have "\<dots> = (unat u + 1) mod 2 ^ 32" by simp
  also have "\<dots> = unat u + 1" using assms by simp
  finally show ?thesis .
qed

lemma upt_shift_map:
  "map f [Suc 0..<Suc n] = map (\<lambda>k. f (Suc k)) [0..<n]"
  by (induction n) simp_all

lemma select_run_value:
  assumes "rings cfg \<noteq> 0" "unat (rings cfg) \<le> 2 ^ 31"
  shows "unat u + n < 2 ^ 32 \<Longrightarrow>
         select_run cfg n u =
           (map (\<lambda>k. Some (int ((unat u + 1 + k) mod unat (rings cfg)))) [0..<n], u + of_nat n)"
proof (induction n arbitrary: u)
  case 0
  show ?case by simp
next
  case (Suc n)
  let ?f = "\<lambda>k. Some (int ((unat u + 1 + k) mod unat (rings cfg)))"
  have u1: "unat (u + 1) = unat u + 1"
    using Suc.prems by (intro unat_succ_u32) simp
  then have "unat (u + 1) + n < 2 ^ 32" using Suc.prems by simp
  from Suc.IH [OF this]
  have rest: "select_run cfg n (u + 1) = (map (\<lambda>k. ?f (Suc k)) [0..<n], u + 1 + of_nat n)"
    unfolding u1 by simp
  have "[0..<Suc n] = 0 # [Suc 0..<Suc n]" by (simp add: upt_rec)
  then have whole: "map ?f [0..<Suc n] = ?f 0 # map (\<lambda>k. ?f (Suc k)) [0..<n]"
    by (simp only: list.map upt_shift_map)
  have first: "safexcel_select_ring cfg u = (?f 0, u + 1)"
    using select_value [OF assms, of u] unfolding u1 by simp
  have last: "u + 1 + of_nat n = u + of_nat (Suc n)" by simp
  show ?case
    by (simp only: select_run.simps first prod.case rest whole last)
qed


lemma shift_mod_perm:
  assumes "0 < (N::nat)"
  shows "inj_on (\<lambda>k. (a + k) mod N) {0..<N}"
    and "(\<lambda>k. (a + k) mod N) ` {0..<N} = {0..<N}"
proof -
  show inj: "inj_on (\<lambda>k. (a + k) mod N) {0..<N}"
  proof (rule inj_onI)
    fix x y
    assume "x \<in> {0..<N}" "y \<in> {0..<N}" "(a + x) mod N = (a + y) mod N"
    then show "x = y" using shift_mod_inj [of x N y a] by simp
  qed
  have sub: "(\<lambda>k. (a + k) mod N) ` {0..<N} \<subseteq> {0..<N}"
  proof
    fix y assume "y \<in> (\<lambda>k. (a + k) mod N) ` {0..<N}"
    then obtain k where "y = (a + k) mod N" by blast
    then show "y \<in> {0..<N}" using assms by simp
  qed
  have fin: "finite {0..<N}" by simp
  show "(\<lambda>k. (a + k) mod N) ` {0..<N} = {0..<N}"
    by (rule endo_inj_surj [OF fin sub inj])
qed

lemma select_run_perm:
  assumes "rings cfg \<noteq> 0" "unat (rings cfg) \<le> 2 ^ 31"
    and "unat u + unat (rings cfg) < 2 ^ 32"
  shows "length (fst (select_run cfg (unat (rings cfg)) u)) = unat (rings cfg)"
    and "distinct (fst (select_run cfg (unat (rings cfg)) u))"
    and "set (fst (select_run cfg (unat (rings cfg)) u)) =
           (\<lambda>i. Some (int i)) ` {0..<unat (rings cfg)}"
proof -
  let ?N = "unat (rings cfg)"
  define g where "g = (\<lambda>k. (unat u + 1 + k) mod ?N)"
  define h where "h = (\<lambda>k. Some (int (g k)))"
  have pos: "0 < ?N" using assms(1) by (simp add: unat_gt_0)
  have "select_run cfg ?N u = (map h [0..<?N], u + of_nat ?N)"
    unfolding h_def g_def by (rule select_run_value [OF assms])
  then have run: "fst (select_run cfg ?N u) = map h [0..<?N]" by simp
  have inj_g: "inj_on g {0..<?N}" and img: "g ` {0..<?N} = {0..<?N}"
    unfolding g_def by (rule shift_mod_perm [OF pos])+
  have inj_h: "inj_on h (set [0..<?N])"
  proof (rule inj_onI)
    fix x y
    assume xy: "x \<in> set [0..<?N]" "y \<in> set [0..<?N]" "h x = h y"
    then have "g x = g y" unfolding h_def by simp
    then show "x = y" using inj_g xy(1,2) by (simp add: inj_on_def)
  qed
  show "length (fst (select_run cfg ?N u)) = ?N" unfolding run by simp
  show "distinct (fst (select_run cfg ?N u))"
    unfolding run distinct_map using inj_h by simp
  have "set (map h [0..<?N]) = (\<lambda>i. Some (int i)) ` (g ` {0..<?N})"
    unfolding h_def by (simp add: image_image)
  then show "set (fst (select_run cfg ?N u)) = (\<lambda>i. Some (int i)) ` {0..<?N}"
    unfolding run img .
qed

lemma three: "unat (rings demo_config) = Suc (Suc (Suc 0))"
  by (simp add: demo_config_def)

lemma run3: "fst (select_run demo_config (Suc (Suc (Suc 0))) 4) = [Some 2, Some 0, Some 1]"
  by (simp add: safexcel_select_ring_def demo_config_def Let_def)

text \<open>
  C9 (amended). With a ring count between 1 and \<open>2\<^sup>3\<^sup>1\<close>, every call of
  \<^verbatim>\<open>safexcel_select_ring\<close> increments the counter and returns the incremented value,
  read as unsigned, modulo the ring count: an index from 0 and below the ring count, for
  every state of the counter. A run of as many calls as there are rings selects every
  ring exactly once, provided the 32-bit counter does not wrap around during the run.
\<close>

theorem select_ring_round_robin:
  assumes "rings cfg \<noteq> 0" "unat (rings cfg) \<le> 2 ^ 31"
  shows "safexcel_select_ring cfg u =
           (Some (int (unat (u + 1) mod unat (rings cfg))), u + 1) \<and>
         unat (u + 1) mod unat (rings cfg) < unat (rings cfg) \<and>
         (unat u + unat (rings cfg) < 2 ^ 32 \<longrightarrow>
            length (fst (select_run cfg (unat (rings cfg)) u)) = unat (rings cfg) \<and>
            distinct (fst (select_run cfg (unat (rings cfg)) u)) \<and>
            set (fst (select_run cfg (unat (rings cfg)) u)) =
              (\<lambda>i. Some (int i)) ` {0..<unat (rings cfg)})"
proof (intro conjI impI)
  show "safexcel_select_ring cfg u =
           (Some (int (unat (u + 1) mod unat (rings cfg))), u + 1)"
    by (rule select_value [OF assms])
  have "0 < unat (rings cfg)" using assms(1) by (simp add: unat_gt_0)
  then show "unat (u + 1) mod unat (rings cfg) < unat (rings cfg)" by simp
next
  assume "unat u + unat (rings cfg) < 2 ^ 32"
  then show "length (fst (select_run cfg (unat (rings cfg)) u)) = unat (rings cfg)"
    by (rule select_run_perm(1) [OF assms])
next
  assume "unat u + unat (rings cfg) < 2 ^ 32"
  then show "distinct (fst (select_run cfg (unat (rings cfg)) u))"
    by (rule select_run_perm(2) [OF assms])
next
  assume "unat u + unat (rings cfg) < 2 ^ 32"
  then show "set (fst (select_run cfg (unat (rings cfg)) u)) =
              (\<lambda>i. Some (int i)) ` {0..<unat (rings cfg)}"
    by (rule select_run_perm(3) [OF assms])
qed

theorem select_ring_round_robin_witness:
  "safexcel_select_ring demo_config 4 = (Some 2, 5) \<and>
   fst (select_run demo_config (Suc (Suc (Suc 0))) 4) = [Some 2, Some 0, Some 1] \<and>
   distinct (fst (select_run demo_config (Suc (Suc (Suc 0))) 4))"
proof -
  have h1: "rings demo_config \<noteq> 0" by (simp add: demo_config_def)
  have h2: "unat (rings demo_config) \<le> 2 ^ 31" by (simp add: demo_config_def)
  have h3: "unat (4 :: u32) + unat (rings demo_config) < 2 ^ 32" by (simp add: demo_config_def)
  note t = select_ring_round_robin [OF h1 h2, of 4]
  from t have a: "safexcel_select_ring demo_config 4 = (Some 2, 5)"
    by (simp add: demo_config_def)
  from t h3 have "distinct (fst (select_run demo_config (unat (rings demo_config)) 4))"
    by blast
  then have b: "distinct (fst (select_run demo_config (Suc (Suc (Suc 0))) 4))"
    unfolding three .
  show ?thesis using a b run3 by (intro conjI)
qed

text \<open>
  C9 (as stated) fails when the counter wraps: with three rings and the counter at
  \<^verbatim>\<open>0xFFFFFFFE\<close>, three calls select ring 0 twice and ring 2 not at all.
\<close>

theorem select_ring_counterexample:
  "fst (select_run demo_config (Suc (Suc (Suc 0))) 0xFFFFFFFE) = [Some 0, Some 0, Some 1] \<and>
   rings demo_config = 3"
  by (simp add: safexcel_select_ring_def demo_config_def Let_def)

section \<open>Arithmetic of C integers\<close>

lemma int32_0: "int32 0 = 0"
  by (simp add: int32_def)

lemma int32_range: "- (2 ^ 31) \<le> int32 x" "int32 x < 2 ^ 31"
  by (simp_all add: int32_def)

lemma int32_id: "- (2 ^ 31) \<le> x \<Longrightarrow> x < 2 ^ 31 \<Longrightarrow> int32 x = x"
  by (simp add: int32_def)

lemma int32_mod: "int32 x mod 2 ^ 32 = x mod 2 ^ 32"
proof -
  have "int32 x mod 2 ^ 32 = ((x + 2 ^ 31) mod 2 ^ 32 - 2 ^ 31 mod 2 ^ 32) mod 2 ^ 32"
    unfolding int32_def by (simp only: mod_diff_right_eq)
  also have "\<dots> = (x + 2 ^ 31 - 2 ^ 31) mod 2 ^ 32"
    by (simp only: mod_diff_eq)
  finally show ?thesis by simp
qed

lemma int32_cong: "a mod 2 ^ 32 = b mod 2 ^ 32 \<Longrightarrow> int32 a = int32 b"
proof -
  assume h: "a mod 2 ^ 32 = b mod 2 ^ 32"
  have "(a + 2 ^ 31) mod 2 ^ 32 = (a mod 2 ^ 32 + 2 ^ 31) mod 2 ^ 32" for a :: int
    by (simp only: mod_add_left_eq)
  then have "(a + 2 ^ 31) mod 2 ^ 32 = (b + 2 ^ 31) mod 2 ^ 32"
    using h by metis
  then show ?thesis unfolding int32_def by (simp only:)
qed

lemma int32_idem: "int32 (int32 x) = int32 x"
  by (rule int32_cong) (rule int32_mod)

lemma int32_add_left: "int32 (int32 a + b) = int32 (a + b)"
proof (rule int32_cong)
  have "(int32 a + b) mod 2 ^ 32 = (int32 a mod 2 ^ 32 + b) mod 2 ^ 32"
    by (simp only: mod_add_left_eq)
  also have "\<dots> = (a + b) mod 2 ^ 32"
    by (simp only: int32_mod mod_add_left_eq)
  finally show "(int32 a + b) mod 2 ^ 32 = (a + b) mod 2 ^ 32" .
qed

lemma int32_add_right: "int32 (a + int32 b) = int32 (a + b)"
  using int32_add_left [of b a] by (simp only: add.commute)

lemma int32_diff_left: "int32 (int32 a - b) = int32 (a - b)"
  using int32_add_left [of a "- b"] by simp

lemma int32_diff_right: "int32 (a - int32 b) = int32 (a - b)"
proof (rule int32_cong)
  have "(a - int32 b) mod 2 ^ 32 = (a - int32 b mod 2 ^ 32) mod 2 ^ 32"
    by (simp only: mod_diff_right_eq)
  also have "\<dots> = (a - b) mod 2 ^ 32"
    by (simp only: int32_mod mod_diff_right_eq)
  finally show "(a - int32 b) mod 2 ^ 32 = (a - b) mod 2 ^ 32" .
qed

lemma word_of_int32: "(word_of_int (int32 x) :: 32 word) = word_of_int x"
proof -
  have "take_bit 32 (int32 x) = take_bit 32 x"
    by (simp only: take_bit_eq_mod int32_mod)
  then show ?thesis by (simp add: word_eq_iff_unsigned [where ?'a = int] unsigned_of_int)
qed

section \<open>The interrupt threshold\<close>

lemma mask16: "(0xFFFF :: u32) = mask 16"
  by (simp add: mask_eq_exp_minus_1)

lemma thresh_field:
  assumes "0 \<le> n" "n \<le> 65535"
  shows "uint ((EIP197_HIA_RDR_THRESH_PKT_MODE OR word_of_int n :: u32) AND 0xFFFF) = n"
proof -
  have lt: "n < 2 ^ 16" using assms(2) by simp
  have tn: "take_bit 16 n = n"
    using assms(1) lt by (simp add: take_bit_int_eq_self)
  have a: "take_bit 16 EIP197_HIA_RDR_THRESH_PKT_MODE = (0 :: u32)"
    by (simp add: EIP197_HIA_RDR_THRESH_PKT_MODE_def take_bit_push_bit)
  have b: "take_bit 16 (word_of_int n :: u32) = word_of_int n"
    using tn by (metis take_bit_of_int)
  have "(EIP197_HIA_RDR_THRESH_PKT_MODE OR word_of_int n :: u32) AND 0xFFFF =
        take_bit 16 (EIP197_HIA_RDR_THRESH_PKT_MODE OR word_of_int n :: u32)"
    unfolding mask16 by (simp add: take_bit_eq_mask)
  also have "\<dots> = word_of_int n"
    unfolding take_bit_or a b by simp
  finally have e: "(EIP197_HIA_RDR_THRESH_PKT_MODE OR word_of_int n :: u32) AND 0xFFFF =
        word_of_int n" .
  have "n < 2 ^ 32" using lt by simp
  then have "uint (word_of_int n :: u32) = n"
    using assms(1) by (simp add: uint_word_of_int take_bit_int_eq_self flip: take_bit_eq_mod)
  then show ?thesis unfolding e .
qed


lemma try_push_events:
  "snd (safexcel_try_push_requests rg) = [Writel (thresh_value (requests rg)) RDR_THRESH]"
  by (simp add: safexcel_try_push_requests_def thresh_value_def Let_def
      EIP197_HIA_RDR_THRESH_PROC_PKT_def)

lemma try_push_requests: "requests (fst (safexcel_try_push_requests rg)) = requests rg"
  by (simp add: safexcel_try_push_requests_def Let_def)

lemma dequeue_finalize_last:
  assumes "dequeue_finalize cfg rg acc = (rg', ev)" "requests rg' \<noteq> 0"
  shows "last ev = Writel (thresh_value (requests rg')) RDR_THRESH"
proof -
  obtain nreq cdesc rdesc ev1 where acc: "acc = (nreq, cdesc, rdesc, ev1)"
    by (cases acc)
  define rg2 where "rg2 = rg\<lparr>requests := int32 (requests rg + nreq)\<rparr>"
  obtain rg3 ev5 where tp: "safexcel_try_push_requests rg2 = (rg3, ev5)"
    by (cases "safexcel_try_push_requests rg2")
  have ev5: "ev5 = [Writel (thresh_value (requests rg2)) RDR_THRESH]"
    using try_push_events [of rg2] tp by simp
  have r3: "requests rg3 = requests rg2"
    using try_push_requests [of rg2] tp by simp
  show ?thesis
  proof (cases "requests rg2 = 0")
    case True
    then have "rg' = rg2"
      using assms(1) unfolding acc dequeue_finalize_def rg2_def by (simp add: Let_def)
    then show ?thesis using True assms(2) by simp
  next
    case False
    then have "rg' = rg3\<lparr>busy := True\<rparr> \<and> (\<exists>pre. ev = pre @ ev5)"
      using assms(1) tp unfolding acc dequeue_finalize_def rg2_def by (auto simp: Let_def)
    then show ?thesis using ev5 r3 by auto
  qed
qed

lemma dequeue_last_event:
  assumes "safexcel_dequeue cfg send rg q s = (rg', q', s', ev)" "requests rg' \<noteq> 0"
  shows "last ev = Writel (thresh_value (requests rg')) RDR_THRESH"
proof -
  obtain rg1 q1 s1 acc where dr: "dequeue_requests send rg q s = (rg1, q1, s1, acc)"
    by (metis prod_cases4)
  obtain rg2 ev2 where df: "dequeue_finalize cfg rg1 acc = (rg2, ev2)"
    by (cases "dequeue_finalize cfg rg1 acc")
  have "rg' = rg2" "ev = ev2"
    using assms(1) by (simp_all add: safexcel_dequeue_def dr df)
  then show ?thesis using dequeue_finalize_last [OF df] assms(2) by simp
qed

lemma handle_results_finish_last:
  assumes "handle_results_finish rg handled ev2 = (rg', ev)" "requests rg' \<noteq> 0"
  shows "last ev = Writel (thresh_value (requests rg')) RDR_THRESH"
proof -
  define rg1 where "rg1 = rg\<lparr>requests := int32 (requests rg - handled), busy := False\<rparr>"
  obtain rg2 ev4 where tp: "safexcel_try_push_requests rg1 = (rg2, ev4)"
    by (cases "safexcel_try_push_requests rg1")
  have ev4: "ev4 = [Writel (thresh_value (requests rg1)) RDR_THRESH]"
    using try_push_events [of rg1] tp by simp
  have r2: "requests rg2 = requests rg1"
    using try_push_requests [of rg1] tp by simp
  show ?thesis
  proof (cases "requests rg1 = 0")
    case True
    then have "rg' = rg1"
      using assms(1) unfolding handle_results_finish_def rg1_def by (simp add: Let_def)
    then show ?thesis using True assms(2) by simp
  next
    case False
    then have "rg' = rg2\<lparr>busy := True\<rparr> \<and> (\<exists>pre. ev = pre @ ev4)"
      using assms(1) tp unfolding handle_results_finish_def rg1_def by (auto simp: Let_def)
    then show ?thesis using ev4 r2 by auto
  qed
qed

lemma handle_result_last_event:
  assumes "safexcel_handle_result_descriptor cfg rg stat results scans = (rg', ev)"
    "requests rg' \<noteq> 0"
  shows "last ev = Writel (thresh_value (requests rg')) RDR_THRESH"
proof -
  obtain handled ev2 where h: "handle_results cfg rg stat results scans = (handled, ev2)"
    by (cases "handle_results cfg rg stat results scans")
  have "handle_results_finish rg handled ev2 = (rg', ev)"
    using assms(1) by (simp add: safexcel_handle_result_descriptor_def h)
  from handle_results_finish_last [OF this assms(2)] show ?thesis .
qed

text \<open>
  The counter wraps around as an \<^verbatim>\<open>int\<close> does: a run that admits one request with
  \<^verbatim>\<open>INT_MAX\<close> requests in flight leaves \<^verbatim>\<open>INT_MIN\<close> and writes \<open>0x80800000\<close> to
  the threshold register. The acknowledge loop runs for a negative \<^verbatim>\<open>i\<close>.
\<close>

lemma dequeue_counter_wraps:
  "safexcel_dequeue demo_config demo_send (idle_ring\<lparr>requests := 2147483647\<rparr>) [(None, 1)] 0 =
     (idle_ring\<lparr>requests := - 2147483648, thresh_written := - 2147483648, busy := True\<rparr>,
      [], 1,
      [Writel 0x800000 RDR_THRESH, SendCall 1 0 1 1, Writel 64 CDR_PREP_COUNT, RequestsAdd 1,
       Writel 64 RDR_PREP_COUNT, Writel 0x80800000 RDR_THRESH])"
  by code_simp

lemma proc_ack_loop_negative:
  "proc_ack_loop (- 1) ev =
     proc_ack_loop (- 128)
       (ev @ [Writel (EIP197_xDR_PROC_xD_PKT EIP197_xDR_PROC_xD_PKT_MASK) RDR_PROC_COUNT])"
  by (subst proc_ack_loop.simps)
     (simp add: ulong_def int32_def EIP197_xDR_PROC_xD_PKT_MASK_def del: proc_ack_loop.simps)

text \<open>
  C6. When \<^verbatim>\<open>safexcel_try_push_requests\<close> runs with at least one request in flight,
  the one register write it makes is to the threshold register, and the packet count in
  its low 16 bits is the smaller of the in-flight counter and 65535. This is the last
  write of a run of \<^verbatim>\<open>safexcel_dequeue\<close> and of a run of
  \<^verbatim>\<open>safexcel_handle_result_descriptor\<close> that ends with at least one request in flight,
  with the counter as the run leaves it.
\<close>

theorem threshold_is_min_of_requests_and_batch:
  "(1 \<le> requests rg \<longrightarrow>
      snd (safexcel_try_push_requests rg) = [Writel (thresh_value (requests rg)) RDR_THRESH] \<and>
      uint (thresh_value (requests rg) AND 0xFFFF) = min (requests rg) 65535) \<and>
   (\<forall>rg' q' s' ev. safexcel_dequeue cfg send rg q s = (rg', q', s', ev) \<and> 1 \<le> requests rg' \<longrightarrow>
      last ev = Writel (thresh_value (requests rg')) RDR_THRESH \<and>
      uint (thresh_value (requests rg') AND 0xFFFF) = min (requests rg') 65535) \<and>
   (\<forall>rg' ev. safexcel_handle_result_descriptor cfg rg stat results scans = (rg', ev) \<and>
      1 \<le> requests rg' \<longrightarrow>
      last ev = Writel (thresh_value (requests rg')) RDR_THRESH \<and>
      uint (thresh_value (requests rg') AND 0xFFFF) = min (requests rg') 65535)"
proof -
  have field: "uint (thresh_value n AND 0xFFFF) = min n 65535" if "1 \<le> n" for n
  proof -
    have "0 \<le> min n 65535" "min n 65535 \<le> 65535" using that by simp_all
    from thresh_field [OF this] show ?thesis
      by (simp add: thresh_value_def EIP197_MAX_BATCH_SZ_def)
  qed
  show ?thesis
  proof (intro conjI allI impI)
    assume "1 \<le> requests rg"
    then show "uint (thresh_value (requests rg) AND 0xFFFF) = min (requests rg) 65535"
      by (rule field)
  next
    show "snd (safexcel_try_push_requests rg) = [Writel (thresh_value (requests rg)) RDR_THRESH]"
      by (rule try_push_events)
  next
    fix rg' q' s' ev
    assume a: "safexcel_dequeue cfg send rg q s = (rg', q', s', ev) \<and> 1 \<le> requests rg'"
    then have nz: "requests rg' \<noteq> 0" by simp
    from a have e: "safexcel_dequeue cfg send rg q s = (rg', q', s', ev)" by simp
    from dequeue_last_event [OF e nz]
    show "last ev = Writel (thresh_value (requests rg')) RDR_THRESH" .
    from a show "uint (thresh_value (requests rg') AND 0xFFFF) = min (requests rg') 65535"
      using field by blast
  next
    fix rg' ev
    assume a: "safexcel_handle_result_descriptor cfg rg stat results scans = (rg', ev) \<and>
      1 \<le> requests rg'"
    then have nz: "requests rg' \<noteq> 0" by simp
    from a have e: "safexcel_handle_result_descriptor cfg rg stat results scans = (rg', ev)"
      by simp
    from handle_result_last_event [OF e nz]
    show "last ev = Writel (thresh_value (requests rg')) RDR_THRESH" .
    from a show "uint (thresh_value (requests rg') AND 0xFFFF) = min (requests rg') 65535"
      using field by blast
  qed
qed


theorem threshold_is_min_of_requests_and_batch_witness:
  "snd (safexcel_try_push_requests (idle_ring\<lparr>requests := 70000\<rparr>)) =
     [Writel 0x80FFFF RDR_THRESH] \<and>
   uint (thresh_value 70000 AND 0xFFFF) = 65535"
proof -
  have h: "1 \<le> requests (idle_ring\<lparr>requests := 70000\<rparr>)" by simp
  note t = threshold_is_min_of_requests_and_batch [where rg = "idle_ring\<lparr>requests := 70000\<rparr>"
      and cfg = demo_config and send = demo_send and q = "[]" and s = 0 and stat = 0
      and results = "[]" and scans = "[]", THEN conjunct1, rule_format, OF h]
  have v: "thresh_value 70000 = 0x80FFFF"
    by (simp add: thresh_value_def EIP197_MAX_BATCH_SZ_def EIP197_HIA_RDR_THRESH_PKT_MODE_def)
  from t show ?thesis by (simp add: v)
qed

section \<open>Deferral of a request whose \<^verbatim>\<open>send\<close> fails\<close>

lemma sent_append: "sent (xs @ ys) = sent xs @ sent ys"
  by (induction xs rule: sent.induct) simp_all

lemma admitted_append: "admitted (xs @ ys) = admitted xs + admitted ys"
  by (simp add: admitted_def)

lemma admitted_nonneg: "0 \<le> admitted xs"
  by (simp add: admitted_def)

lemma deq_post_fail:
  assumes "ret \<noteq> 0"
  shows "deq_post ((bl, r) # q) (n, c, d, ev)
           (Some (r, bl), q, s', n, c, d, ev @ [SendCall r ret cm rs])"
  unfolding deq_post_def
  apply (simp only: prod.case)
  apply (rule exI [of _ "[]"])
  apply (rule exI [of _ "[SendCall r ret cm rs]"])
  using assms apply (simp add: saved_entry_def admitted_def)
  done

lemma deq_post_step:
  assumes "deq_post q (if cm = 0 \<and> rs = 0 then n else int32 (n + 1), c1, d1,
             ev @ [SendCall r 0 cm rs] @ (case bl of Some b \<Rightarrow> [BacklogComplete b] | None \<Rightarrow> []))
             res"
  shows "deq_post ((bl, r) # q) (n, c, d, ev) res"
proof -
  obtain saved q' s' acc' where r1: "res = (saved, q', s', acc')" by (cases res)
  obtain n' c' d' ev' where r2: "acc' = (n', c', d', ev')" by (cases acc')
  have res: "res = (saved, q', s', n', c', d', ev')" using r1 r2 by simp
  let ?evs0 = "[SendCall r 0 cm rs] @ (case bl of Some b \<Rightarrow> [BacklogComplete b] | None \<Rightarrow> [])"
  from assms obtain dn evs where
    e: "q = dn @ saved_entry saved @ q'"
    and ev': "ev' = (ev @ ?evs0) @ evs"
    and ce: "\<forall>e\<in>set evs. call_event e"
    and st: "sent evs = map snd dn @ map snd (saved_entry saved)"
    and n': "n' = (if admitted evs = 0 then (if cm = 0 \<and> rs = 0 then n else int32 (n + 1))
                  else int32 ((if cm = 0 \<and> rs = 0 then n else int32 (n + 1)) + admitted evs))"
    and fl: "\<forall>r ret cm rs. SendCall r ret cm rs \<in> set evs \<and> ret \<noteq> 0 \<longrightarrow>
                 (\<exists>bl. saved = Some (r, bl))"
    and em: "saved = None \<longrightarrow> q' = []"
    unfolding deq_post_def res by (auto simp only: prod.case append_assoc)
  have a0: "admitted ?evs0 = (if cm = 0 \<and> rs = 0 then 0 else 1)"
    by (cases bl) (simp_all add: admitted_def)
  have s0: "sent ?evs0 = [r]" by (cases bl) simp_all
  have c0: "\<forall>e\<in>set ?evs0. call_event e" by (cases bl) simp_all
  have f0: "\<forall>r' ret cm' rs'. SendCall r' ret cm' rs' \<in> set ?evs0 \<and> ret \<noteq> 0 \<longrightarrow> False"
    by (cases bl) auto
  have tot: "admitted (?evs0 @ evs) = (if cm = 0 \<and> rs = 0 then 0 else 1) + admitted evs"
    using a0 by (simp only: admitted_append)
  have nn: "n' = (if admitted (?evs0 @ evs) = 0 then n
                 else int32 (n + admitted (?evs0 @ evs)))"
  proof (cases "cm = 0 \<and> rs = 0")
    case True
    then show ?thesis unfolding tot using n' by simp
  next
    case False
    have pos: "1 + admitted evs \<noteq> 0" using admitted_nonneg [of evs] by simp
    have "n' = int32 (n + (1 + admitted evs))"
      using n' False by (auto simp: int32_add_left add.assoc)
    moreover have "admitted (?evs0 @ evs) = 1 + admitted evs"
      unfolding tot using False by auto
    ultimately show ?thesis using pos by (simp only: if_False)
  qed
  show ?thesis
    unfolding deq_post_def res
    apply (simp only: prod.case)
    apply (rule exI [of _ "(bl, r) # dn"])
    apply (rule exI [of _ "?evs0 @ evs"])
    apply (intro conjI)
    subgoal using e by simp
    subgoal using ev' by simp
    subgoal using ce c0 by auto
    subgoal using st s0 by (simp add: sent_append del: append.simps)
    subgoal using nn .
    subgoal using fl f0 by (metis Un_iff set_append)
    subgoal using em .
    done
qed

lemma deq_loop:
  "deq_post q acc (dequeue_next send q s acc)"
  "deq_post ((bl, r) # q) acc (dequeue_handle_req send r bl q s acc)"
proof (induction send q s acc and send r bl q s acc rule: dequeue_next_dequeue_handle_req.induct)
  case (1 send s acc)
  obtain n c d ev where acc: "acc = (n, c, d, ev)" by (cases acc)
  show ?case
    unfolding acc deq_post_def
    by (simp add: saved_entry_def admitted_def)
next
  case (2 send bl r q s acc)
  then show ?case by simp
next
  case (3 send r bl q s nreq cdesc rdesc ev)
  obtain x s' where xs: "send r s = (x, s')" by (cases "send r s")
  obtain ret cm rs where x: "x = (ret, cm, rs)" by (cases x)
  have snd: "send r s = ((ret, cm, rs), s')" using xs x by simp
  show ?case
  proof (cases "ret = 0")
    case False
    then show ?thesis
      using deq_post_fail [OF False] by (simp add: snd)
  next
    case True
    then have snd0: "send r s = ((0, cm, rs), s')" using snd by simp
    let ?ev' = "ev @ [SendCall r 0 cm rs] @
                  (case bl of Some b \<Rightarrow> [BacklogComplete b] | None \<Rightarrow> [])"
    show ?thesis
    proof (cases "cm = 0 \<and> rs = 0")
      case z: True
      have zero: "(if cm = 0 \<and> rs = 0 then nreq else int32 (nreq + 1)) = nreq" using z by simp
      have "deq_post q (nreq, cdesc, rdesc, ?ev')
              (dequeue_next send q s' (nreq, cdesc, rdesc, ?ev'))"
        by (rule "3.IH"(1) [OF snd0 [symmetric] refl refl _ refl z]) simp
      then have p: "deq_post q (if cm = 0 \<and> rs = 0 then nreq else int32 (nreq + 1),
                cdesc, rdesc, ?ev')
              (dequeue_next send q s' (nreq, cdesc, rdesc, ?ev'))"
        by (simp only: zero)
      have "dequeue_handle_req send r bl q s (nreq, cdesc, rdesc, ev) =
              dequeue_next send q s' (nreq, cdesc, rdesc, ?ev')"
        using z by (simp add: snd0 Let_def)
      then show ?thesis using deq_post_step [OF p] by simp
    next
      case nz: False
      have one: "(if cm = 0 \<and> rs = 0 then nreq else int32 (nreq + 1)) = int32 (nreq + 1)"
        using nz by auto
      have "deq_post q (int32 (nreq + 1), int32 (cdesc + cm), int32 (rdesc + rs), ?ev')
              (dequeue_next send q s'
                 (int32 (nreq + 1), int32 (cdesc + cm), int32 (rdesc + rs), ?ev'))"
        by (rule "3.IH"(2) [OF snd0 [symmetric] refl refl _ refl nz]) simp
      then have p: "deq_post q (if cm = 0 \<and> rs = 0 then nreq else int32 (nreq + 1),
                int32 (cdesc + cm), int32 (rdesc + rs), ?ev')
              (dequeue_next send q s'
                 (int32 (nreq + 1), int32 (cdesc + cm), int32 (rdesc + rs), ?ev'))"
        by (simp only: one)
      have "dequeue_handle_req send r bl q s (nreq, cdesc, rdesc, ev) =
              dequeue_next send q s'
                (int32 (nreq + 1), int32 (cdesc + cm), int32 (rdesc + rs), ?ev')"
        using nz by (auto simp add: snd0 Let_def)
      then show ?thesis using deq_post_step [OF p] by simp
    qed
  qed
qed


lemma dequeue_requests_post:
  assumes "dequeue_requests send rg q s = (rg1, q', s', n, c, d, ev)"
  shows "\<exists>done evs.
           stalled rg @ q = done @ stalled rg1 @ q' \<and>
           ev = Writel EIP197_HIA_RDR_THRESH_PKT_MODE RDR_THRESH # evs \<and>
           (\<forall>e\<in>set evs. call_event e) \<and>
           sent evs = map snd done @ map snd (stalled rg1) \<and>
           n = int32 (admitted evs) \<and>
           (\<forall>r ret cm rs. SendCall r ret cm rs \<in> set evs \<and> ret \<noteq> 0 \<longrightarrow> req rg1 = Some r) \<and>
           requests rg1 = requests rg"
proof -
  let ?ev0 = "[Writel EIP197_HIA_RDR_THRESH_PKT_MODE RDR_THRESH]"
  define res where "res = (case req rg of
                 Some r \<Rightarrow> dequeue_handle_req send r (backlog rg) q s (0, 0, 0, ?ev0)
               | None \<Rightarrow> dequeue_next send q s (0, 0, 0, ?ev0))"
  have post: "deq_post (stalled rg @ q) (0, 0, 0, ?ev0) res"
  proof (cases "req rg")
    case None
    then show ?thesis
      unfolding res_def stalled_def
      using deq_loop(1) [where q = q and acc = "(0, 0, 0, ?ev0)" and send = send and s = s]
      by simp
  next
    case (Some r)
    then show ?thesis
      unfolding res_def stalled_def
      using deq_loop(2) [where q = q and acc = "(0, 0, 0, ?ev0)" and send = send and s = s
          and r = r and bl = "backlog rg"]
      by simp
  qed
  obtain saved q1 s1 acc1 where r1: "res = (saved, q1, s1, acc1)" by (cases res)
  obtain n1 c1 d1 ev1 where r2: "acc1 = (n1, c1, d1, ev1)" by (cases acc1)
  have res: "res = (saved, q1, s1, n1, c1, d1, ev1)" using r1 r2 by simp
  have out: "(rg1, q', s', n, c, d, ev) =
     (case saved of
        Some (r, bl) \<Rightarrow> (rg\<lparr>req := Some r, backlog := bl\<rparr>, q1, s1, n1, c1, d1, ev1)
      | None \<Rightarrow> (rg\<lparr>req := None, backlog := None\<rparr>, q1, s1, n1, c1, d1, ev1))"
    using assms unfolding dequeue_requests_def Let_def res_def [symmetric] res
    by (simp split: option.splits prod.splits)
  then have eqs: "q' = q1" "s' = s1" "n = n1" "ev = ev1"
    and st: "stalled rg1 = saved_entry saved"
    and rq: "req rg1 = map_option fst saved"
    and cnt: "requests rg1 = requests rg"
    by (auto simp: stalled_def saved_entry_def split: option.splits prod.splits)
  from post obtain dn evs where
    e: "stalled rg @ q = dn @ saved_entry saved @ q1"
    and ev1: "ev1 = ?ev0 @ evs"
    and ce: "\<forall>e\<in>set evs. call_event e"
    and sn: "sent evs = map snd dn @ map snd (saved_entry saved)"
    and n1: "n1 = (if admitted evs = 0 then 0 else int32 (0 + admitted evs))"
    and fl: "\<forall>r ret cm rs. SendCall r ret cm rs \<in> set evs \<and> ret \<noteq> 0 \<longrightarrow>
                 (\<exists>bl. saved = Some (r, bl))"
    unfolding deq_post_def res by (auto simp only: prod.case)
  have fl': "\<forall>r ret cm rs. SendCall r ret cm rs \<in> set evs \<and> ret \<noteq> 0 \<longrightarrow> req rg1 = Some r"
    using fl rq by fastforce
  have n1': "n1 = int32 (admitted evs)" using n1 by (simp add: int32_0)
  show ?thesis
    apply (rule exI [of _ dn])
    apply (rule exI [of _ evs])
    using e ev1 ce sn n1' fl' cnt unfolding eqs st by simp
qed

lemma dequeue_finalize_post:
  assumes "dequeue_finalize cfg rg1 (n, c, d, ev) = (rg', ev')"
  shows "\<exists>post. ev' = ev @ [Writel (word_of_int c * cd_offset cfg) CDR_PREP_COUNT,
                         RequestsAdd n,
                         Writel (word_of_int d * rd_offset cfg) RDR_PREP_COUNT] @ post \<and>
           (post = [] \<or> post = [Writel (thresh_value (int32 (requests rg1 + n))) RDR_THRESH]) \<and>
           req rg' = req rg1 \<and> backlog rg' = backlog rg1 \<and>
           requests rg' = int32 (requests rg1 + n)"
proof -
  define rg2 where "rg2 = rg1\<lparr>requests := int32 (requests rg1 + n)\<rparr>"
  obtain rg3 ev5 where tp: "safexcel_try_push_requests rg2 = (rg3, ev5)"
    by (cases "safexcel_try_push_requests rg2")
  have ev5: "ev5 = [Writel (thresh_value (int32 (requests rg1 + n))) RDR_THRESH]"
    using try_push_events [of rg2] tp by (simp add: rg2_def)
  have rg3: "req rg3 = req rg1 \<and> backlog rg3 = backlog rg1 \<and>
             requests rg3 = int32 (requests rg1 + n)"
    using tp by (auto simp: safexcel_try_push_requests_def Let_def rg2_def split: if_splits)
  show ?thesis
  proof (cases "requests rg2 = 0")
    case True
    then have "rg' = rg2" "ev' = ev @ [Writel (word_of_int c * cd_offset cfg) CDR_PREP_COUNT,
                         RequestsAdd n,
                         Writel (word_of_int d * rd_offset cfg) RDR_PREP_COUNT]"
      using assms unfolding dequeue_finalize_def rg2_def by (simp_all add: Let_def)
    then show ?thesis by (simp add: rg2_def)
  next
    case False
    then have "rg' = rg3\<lparr>busy := True\<rparr>"
      "ev' = ev @ [Writel (word_of_int c * cd_offset cfg) CDR_PREP_COUNT,
                         RequestsAdd n,
                         Writel (word_of_int d * rd_offset cfg) RDR_PREP_COUNT] @ ev5"
      using assms tp unfolding dequeue_finalize_def rg2_def by (auto simp: Let_def)
    then show ?thesis using ev5 rg3 by simp
  qed
qed

lemma dequeue_post:
  assumes "safexcel_dequeue cfg send rg q s = (rg', q', s', ev)"
  shows "\<exists>done evs v1 v2 post.
           stalled rg @ q = done @ stalled rg' @ q' \<and>
           ev = Writel EIP197_HIA_RDR_THRESH_PKT_MODE RDR_THRESH # evs @
                  [Writel v1 CDR_PREP_COUNT, RequestsAdd (int32 (admitted evs)),
                   Writel v2 RDR_PREP_COUNT] @ post \<and>
           (\<forall>e\<in>set evs. call_event e) \<and>
           sent evs = map snd done @ map snd (stalled rg') \<and>
           (\<forall>r ret cm rs. SendCall r ret cm rs \<in> set evs \<and> ret \<noteq> 0 \<longrightarrow> req rg' = Some r) \<and>
           (post = [] \<or> (\<exists>v. post = [Writel v RDR_THRESH])) \<and>
           requests rg' = int32 (requests rg + admitted evs)"
proof -
  obtain rg1 q1 s1 acc where dr0: "dequeue_requests send rg q s = (rg1, q1, s1, acc)"
    by (metis prod_cases4)
  obtain n c d ev1 where acc: "acc = (n, c, d, ev1)" by (cases acc)
  have dr: "dequeue_requests send rg q s = (rg1, q1, s1, n, c, d, ev1)"
    using dr0 acc by simp
  obtain rg2 ev2 where df: "dequeue_finalize cfg rg1 (n, c, d, ev1) = (rg2, ev2)"
    by (cases "dequeue_finalize cfg rg1 (n, c, d, ev1)")
  have out: "rg' = rg2" "q' = q1" "s' = s1" "ev = ev2"
    using assms by (simp_all add: safexcel_dequeue_def dr df)
  from dequeue_requests_post [OF dr] obtain dn evs where
    e: "stalled rg @ q = dn @ stalled rg1 @ q1"
    and ev1: "ev1 = Writel EIP197_HIA_RDR_THRESH_PKT_MODE RDR_THRESH # evs"
    and ce: "\<forall>e\<in>set evs. call_event e"
    and sn: "sent evs = map snd dn @ map snd (stalled rg1)"
    and n: "n = int32 (admitted evs)"
    and fl: "\<forall>r ret cm rs. SendCall r ret cm rs \<in> set evs \<and> ret \<noteq> 0 \<longrightarrow> req rg1 = Some r"
    and cnt: "requests rg1 = requests rg"
    by blast
  from dequeue_finalize_post [OF df] obtain post where
    ev2: "ev2 = ev1 @ [Writel (word_of_int c * cd_offset cfg) CDR_PREP_COUNT,
                         RequestsAdd n,
                         Writel (word_of_int d * rd_offset cfg) RDR_PREP_COUNT] @ post"
    and post: "post = [] \<or> post = [Writel (thresh_value (int32 (requests rg1 + n))) RDR_THRESH]"
    and keep: "req rg2 = req rg1" "backlog rg2 = backlog rg1"
    and r2: "requests rg2 = int32 (requests rg1 + n)"
    by blast
  have st: "stalled rg2 = stalled rg1" unfolding stalled_def keep ..
  have post': "post = [] \<or> (\<exists>v. post = [Writel v RDR_THRESH])" using post by blast
  show ?thesis
    apply (rule exI [of _ dn])
    apply (rule exI [of _ evs])
    apply (rule exI [of _ "word_of_int c * cd_offset cfg"])
    apply (rule exI [of _ "word_of_int d * rd_offset cfg"])
    apply (rule exI [of _ post])
    unfolding out st
    using e ev2 ev1 ce sn n fl keep post' r2 cnt by (simp add: int32_add_right)
qed

lemma call_event_not_complete: "call_event e \<Longrightarrow> e \<noteq> ReqComplete r ret"
  by (cases e) simp_all

lemma dequeue_next_extends:
  "\<exists>evs. snd (snd (snd (snd (snd (snd (dequeue_next send q s (n, c, d, ev))))))) = ev @ evs"
proof -
  obtain saved q1 s1 acc1 where r1: "dequeue_next send q s (n, c, d, ev) = (saved, q1, s1, acc1)"
    by (cases "dequeue_next send q s (n, c, d, ev)")
  obtain n1 c1 d1 ev1 where r2: "acc1 = (n1, c1, d1, ev1)" by (cases acc1)
  have "deq_post q (n, c, d, ev) (saved, q1, s1, n1, c1, d1, ev1)"
    using deq_loop(1) [where q = q and acc = "(n, c, d, ev)" and send = send and s = s] r1 r2
    by simp
  then obtain evs where "ev1 = ev @ evs"
    unfolding deq_post_def by (auto simp only: prod.case)
  then show ?thesis using r1 r2 by simp
qed

lemma handle_req_first:
  "\<exists>ret cm rs rest.
     snd (snd (snd (snd (snd (snd (dequeue_handle_req send r bl q s (n, c, d, ev))))))) =
       ev @ SendCall r ret cm rs # rest"
proof -
  obtain x s' where xs: "send r s = (x, s')" by (cases "send r s")
  obtain ret cm rs where x: "x = (ret, cm, rs)" by (cases x)
  have snd: "send r s = ((ret, cm, rs), s')" using xs x by simp
  let ?ev' = "ev @ [SendCall r ret cm rs] @
                (case bl of Some b \<Rightarrow> [BacklogComplete b] | None \<Rightarrow> [])"
  show ?thesis
  proof (cases "ret = 0")
    case False
    then show ?thesis by (simp add: snd)
  next
    case True
    obtain n1 c1 d1 where
      call: "dequeue_handle_req send r bl q s (n, c, d, ev) =
               dequeue_next send q s' (n1, c1, d1, ?ev')"
      using True by (cases "cm = 0 \<and> rs = 0") (auto simp: snd Let_def)
    from dequeue_next_extends [of send q s' n1 c1 d1 ?ev'] obtain evs where
      "snd (snd (snd (snd (snd (snd (dequeue_next send q s' (n1, c1, d1, ?ev'))))))) =
         ?ev' @ evs" by blast
    then show ?thesis unfolding call by simp
  qed
qed

lemma dequeue_retries_saved:
  assumes "req rg = Some r"
  shows "\<exists>ret cm rs rest.
           snd (snd (snd (safexcel_dequeue cfg send rg q s))) =
             Writel EIP197_HIA_RDR_THRESH_PKT_MODE RDR_THRESH # SendCall r ret cm rs # rest"
proof -
  let ?ev0 = "[Writel EIP197_HIA_RDR_THRESH_PKT_MODE RDR_THRESH]"
  obtain rg1 q1 s1 acc where dr0: "dequeue_requests send rg q s = (rg1, q1, s1, acc)"
    by (metis prod_cases4)
  obtain n c d ev1 where acc: "acc = (n, c, d, ev1)" by (cases acc)
  obtain rg2 ev2 where df: "dequeue_finalize cfg rg1 (n, c, d, ev1) = (rg2, ev2)"
    by (cases "dequeue_finalize cfg rg1 (n, c, d, ev1)")
  have out: "snd (snd (snd (safexcel_dequeue cfg send rg q s))) = ev2"
    by (simp add: safexcel_dequeue_def dr0 acc df)
  have "ev1 = snd (snd (snd (snd (snd (snd
                (dequeue_handle_req send r (backlog rg) q s (0, 0, 0, ?ev0)))))))"
    using dr0 acc assms unfolding dequeue_requests_def Let_def
    by (auto split: option.splits prod.splits)
  then obtain ret cm rs rest where ev1: "ev1 = ?ev0 @ SendCall r ret cm rs # rest"
    using handle_req_first [of send r "backlog rg" q s 0 0 0 ?ev0] by auto
  from dequeue_finalize_post [OF df] obtain tail where "ev2 = ev1 @ tail" by blast
  then have "ev2 = Writel EIP197_HIA_RDR_THRESH_PKT_MODE RDR_THRESH #
                     SendCall r ret cm rs # (rest @ tail)"
    using ev1 by simp
  then show ?thesis unfolding out by blast
qed

lemma demo_dequeue_run:
  "safexcel_dequeue demo_config demo_send idle_ring demo_queue 0 =
     (demo_stalled_ring, [(None, 5)], 3,
      [Writel 0x800000 RDR_THRESH, SendCall 1 0 1 1, SendCall 2 0 1 1, SendCall 3 0 1 1,
       SendCall 4 (- 12) 0 0, Writel 192 CDR_PREP_COUNT, RequestsAdd 3,
       Writel 192 RDR_PREP_COUNT, Writel 0x800003 RDR_THRESH])"
  by code_simp

text \<open>
  C5 (amended). A run of \<^verbatim>\<open>safexcel_dequeue\<close> never completes a request. When a
  \<^verbatim>\<open>send\<close> callback fails, whatever the error, the request is the one the ring
  holds after the run, with its backlog; the entries the run started with (the saved
  request first, then the queue) are the handled ones, then the saved one, then the
  queue as the run leaves it, so that no request is dropped, and \<^verbatim>\<open>send\<close> was called
  once for each handled entry and for the saved one; and the next run, whatever its
  callback and queue, calls \<^verbatim>\<open>send\<close> for the saved request first.
\<close>

theorem dequeue_failed_send_is_saved:
  assumes "safexcel_dequeue cfg send rg q s = (rg', q', s', ev)"
  shows "(\<forall>r ret. ReqComplete r ret \<notin> set ev) \<and>
         (\<forall>r ret cm rs. SendCall r ret cm rs \<in> set ev \<and> ret \<noteq> 0 \<longrightarrow> req rg' = Some r) \<and>
         (\<exists>done. stalled rg @ q = done @ stalled rg' @ q' \<and>
                 sent ev = map snd done @ map snd (stalled rg')) \<and>
         (\<forall>r. req rg' = Some r \<longrightarrow>
            (\<forall>send2 q2 s2. \<exists>ret cm rs rest.
               snd (snd (snd (safexcel_dequeue cfg send2 rg' q2 (s2 :: 's)))) =
                 Writel EIP197_HIA_RDR_THRESH_PKT_MODE RDR_THRESH #
                 SendCall r ret cm rs # rest))"
proof -
  from dequeue_post [OF assms] obtain dn evs v1 v2 post where
    e: "stalled rg @ q = dn @ stalled rg' @ q'"
    and ev: "ev = Writel EIP197_HIA_RDR_THRESH_PKT_MODE RDR_THRESH # evs @
                  [Writel v1 CDR_PREP_COUNT, RequestsAdd (int32 (admitted evs)),
                   Writel v2 RDR_PREP_COUNT] @ post"
    and ce: "\<forall>e\<in>set evs. call_event e"
    and sn: "sent evs = map snd dn @ map snd (stalled rg')"
    and fl: "\<forall>r ret cm rs. SendCall r ret cm rs \<in> set evs \<and> ret \<noteq> 0 \<longrightarrow> req rg' = Some r"
    and post: "post = [] \<or> (\<exists>v. post = [Writel v RDR_THRESH])"
    by blast
  have set_ev: "set ev = {Writel EIP197_HIA_RDR_THRESH_PKT_MODE RDR_THRESH,
                         Writel v1 CDR_PREP_COUNT, RequestsAdd (int32 (admitted evs)),
                         Writel v2 RDR_PREP_COUNT} \<union> set evs \<union> set post"
    unfolding ev by auto
  have a: "\<forall>r ret. ReqComplete r ret \<notin> set ev"
  proof (intro allI notI)
    fix r ret assume "ReqComplete r ret \<in> set ev"
    then have "ReqComplete r ret \<in> set evs" unfolding set_ev using post by auto
    with ce have "call_event (ReqComplete r ret)" by (rule bspec)
    then show False by simp
  qed
  have b: "\<forall>r ret cm rs. SendCall r ret cm rs \<in> set ev \<and> ret \<noteq> 0 \<longrightarrow> req rg' = Some r"
  proof (intro allI impI)
    fix r ret cm rs assume h: "SendCall r ret cm rs \<in> set ev \<and> ret \<noteq> 0"
    then have "SendCall r ret cm rs \<in> set evs" unfolding set_ev using post by auto
    then show "req rg' = Some r" using fl h by blast
  qed
  have "sent post = []" using post by auto
  then have "sent ev = sent evs" unfolding ev by (simp add: sent_append)
  then have c: "\<exists>done. stalled rg @ q = done @ stalled rg' @ q' \<and>
                 sent ev = map snd done @ map snd (stalled rg')"
    using e sn by auto
  have d: "\<forall>r. req rg' = Some r \<longrightarrow>
            (\<forall>send2 q2 s2. \<exists>ret cm rs rest.
               snd (snd (snd (safexcel_dequeue cfg send2 rg' q2 (s2 :: 's)))) =
                 Writel EIP197_HIA_RDR_THRESH_PKT_MODE RDR_THRESH #
                 SendCall r ret cm rs # rest)"
  proof (intro allI impI)
    fix r send2 q2 and s2 :: 's
    assume "req rg' = Some r"
    from dequeue_retries_saved [OF this]
    show "\<exists>ret cm rs rest.
               snd (snd (snd (safexcel_dequeue cfg send2 rg' q2 s2))) =
                 Writel EIP197_HIA_RDR_THRESH_PKT_MODE RDR_THRESH #
                 SendCall r ret cm rs # rest" .
  qed
  from a b c d show ?thesis by (intro conjI)
qed

theorem dequeue_failed_send_is_saved_witness:
  "req demo_stalled_ring = Some 4 \<and> backlog demo_stalled_ring = Some 9 \<and>
   (\<exists>ret cm rs rest.
      snd (snd (snd (safexcel_dequeue demo_config demo_send demo_stalled_ring [(None, 5)] 3))) =
        Writel EIP197_HIA_RDR_THRESH_PKT_MODE RDR_THRESH # SendCall 4 ret cm rs # rest)"
proof -
  note t = dequeue_failed_send_is_saved [OF demo_dequeue_run]
  have f: "SendCall 4 (- 12) 0 0 \<in> set
      [Writel 0x800000 RDR_THRESH, SendCall 1 0 1 1, SendCall 2 0 1 1, SendCall 3 0 1 1,
       SendCall 4 (- 12) 0 0, Writel 192 CDR_PREP_COUNT, RequestsAdd 3,
       Writel 192 RDR_PREP_COUNT, Writel 0x800003 RDR_THRESH] \<and> (- 12 :: int) \<noteq> 0"
    by simp
  have r: "req demo_stalled_ring = Some (4 :: nat)"
    by (rule t [THEN conjunct2, THEN conjunct1, rule_format, OF f])
  have b: "backlog demo_stalled_ring = Some 9" by (simp add: demo_stalled_ring_def)
  have n: "\<exists>ret cm rs rest.
      snd (snd (snd (safexcel_dequeue demo_config demo_send demo_stalled_ring [(None, 5)] 3))) =
        Writel EIP197_HIA_RDR_THRESH_PKT_MODE RDR_THRESH # SendCall 4 ret cm rs # rest"
    by (rule t [THEN conjunct2, THEN conjunct2, THEN conjunct2, rule_format, OF r])
  from r b n show ?thesis by (intro conjI)
qed

text \<open>
  C5 (as stated) fails for an error other than ring full: a \<^verbatim>\<open>send\<close> that returns
  \<^verbatim>\<open>-EINVAL\<close> (\<open>-22\<close>) leaves the request saved in the ring, completes nothing,
  and the next run sends the same request again.
\<close>

theorem dequeue_other_failure_counterexample:
  "safexcel_dequeue demo_config demo_send_einval idle_ring [(None, 1), (Some 7, 2)] 0 =
     (idle_ring\<lparr>req := Some 1\<rparr>, [(Some 7, 2)], 0,
      [Writel 0x800000 RDR_THRESH, SendCall 1 (- 22) 0 0, Writel 0 CDR_PREP_COUNT,
       RequestsAdd 0, Writel 0 RDR_PREP_COUNT]) \<and>
   sent (snd (snd (snd (safexcel_dequeue demo_config demo_send_einval
                          (idle_ring\<lparr>req := Some 1\<rparr>) [(Some 7, 2)] 0)))) = [1]"
  by code_simp

section \<open>A hash request of length zero\<close>

lemma alg_distinct:
  "distinct [CONTEXT_CONTROL_CRYPTO_ALG_MD5, CONTEXT_CONTROL_CRYPTO_ALG_SHA1,
             CONTEXT_CONTROL_CRYPTO_ALG_SHA224, CONTEXT_CONTROL_CRYPTO_ALG_SHA256,
             CONTEXT_CONTROL_CRYPTO_ALG_SHA384, CONTEXT_CONTROL_CRYPTO_ALG_SHA512]"
  by (simp add: CONTEXT_CONTROL_CRYPTO_ALG_MD5_def CONTEXT_CONTROL_CRYPTO_ALG_SHA1_def
      CONTEXT_CONTROL_CRYPTO_ALG_SHA224_def CONTEXT_CONTROL_CRYPTO_ALG_SHA256_def
      CONTEXT_CONTROL_CRYPTO_ALG_SHA384_def CONTEXT_CONTROL_CRYPTO_ALG_SHA512_def)

lemma final_zero_copy:
  assumes z: "len rq = (0, 0)" "nbytes areq = 0"
    and a: "(alg, d, n) \<in> set (zero_digest zh)"
  shows "safexcel_ahash_final zh enqueue alg rq areq w =
           (case memcpy (result areq) d n of
              Inl f \<Rightarrow> Inl f
            | Inr buf \<Rightarrow> Inr (0, rq\<lparr>last_req := True, finish := True\<rparr>,
                             areq\<lparr>result := buf\<rparr>, w))"
proof -
  have ne: "CONTEXT_CONTROL_CRYPTO_ALG_MD5 \<noteq> CONTEXT_CONTROL_CRYPTO_ALG_SHA1"
    "CONTEXT_CONTROL_CRYPTO_ALG_MD5 \<noteq> CONTEXT_CONTROL_CRYPTO_ALG_SHA224"
    "CONTEXT_CONTROL_CRYPTO_ALG_MD5 \<noteq> CONTEXT_CONTROL_CRYPTO_ALG_SHA256"
    "CONTEXT_CONTROL_CRYPTO_ALG_MD5 \<noteq> CONTEXT_CONTROL_CRYPTO_ALG_SHA384"
    "CONTEXT_CONTROL_CRYPTO_ALG_MD5 \<noteq> CONTEXT_CONTROL_CRYPTO_ALG_SHA512"
    "CONTEXT_CONTROL_CRYPTO_ALG_SHA1 \<noteq> CONTEXT_CONTROL_CRYPTO_ALG_SHA224"
    "CONTEXT_CONTROL_CRYPTO_ALG_SHA1 \<noteq> CONTEXT_CONTROL_CRYPTO_ALG_SHA256"
    "CONTEXT_CONTROL_CRYPTO_ALG_SHA1 \<noteq> CONTEXT_CONTROL_CRYPTO_ALG_SHA384"
    "CONTEXT_CONTROL_CRYPTO_ALG_SHA1 \<noteq> CONTEXT_CONTROL_CRYPTO_ALG_SHA512"
    "CONTEXT_CONTROL_CRYPTO_ALG_SHA224 \<noteq> CONTEXT_CONTROL_CRYPTO_ALG_SHA256"
    "CONTEXT_CONTROL_CRYPTO_ALG_SHA224 \<noteq> CONTEXT_CONTROL_CRYPTO_ALG_SHA384"
    "CONTEXT_CONTROL_CRYPTO_ALG_SHA224 \<noteq> CONTEXT_CONTROL_CRYPTO_ALG_SHA512"
    "CONTEXT_CONTROL_CRYPTO_ALG_SHA256 \<noteq> CONTEXT_CONTROL_CRYPTO_ALG_SHA384"
    "CONTEXT_CONTROL_CRYPTO_ALG_SHA256 \<noteq> CONTEXT_CONTROL_CRYPTO_ALG_SHA512"
    "CONTEXT_CONTROL_CRYPTO_ALG_SHA384 \<noteq> CONTEXT_CONTROL_CRYPTO_ALG_SHA512"
    using alg_distinct by simp_all
  from a consider
    "alg = CONTEXT_CONTROL_CRYPTO_ALG_MD5" "d = md5_zero_message_hash zh" "n = MD5_DIGEST_SIZE zh"
    | "alg = CONTEXT_CONTROL_CRYPTO_ALG_SHA1" "d = sha1_zero_message_hash zh"
      "n = SHA1_DIGEST_SIZE zh"
    | "alg = CONTEXT_CONTROL_CRYPTO_ALG_SHA224" "d = sha224_zero_message_hash zh"
      "n = SHA224_DIGEST_SIZE zh"
    | "alg = CONTEXT_CONTROL_CRYPTO_ALG_SHA256" "d = sha256_zero_message_hash zh"
      "n = SHA256_DIGEST_SIZE zh"
    | "alg = CONTEXT_CONTROL_CRYPTO_ALG_SHA384" "d = sha384_zero_message_hash zh"
      "n = SHA384_DIGEST_SIZE zh"
    | "alg = CONTEXT_CONTROL_CRYPTO_ALG_SHA512" "d = sha512_zero_message_hash zh"
      "n = SHA512_DIGEST_SIZE zh"
    unfolding zero_digest_def by auto
  then show ?thesis
  proof cases
    case 1
    then show ?thesis using z by (simp add: safexcel_ahash_final_def)
  next
    case 2
    then show ?thesis using z ne ne [symmetric] by (simp add: safexcel_ahash_final_def)
  next
    case 3
    then show ?thesis using z ne ne [symmetric] by (simp add: safexcel_ahash_final_def)
  next
    case 4
    then show ?thesis using z ne ne [symmetric] by (simp add: safexcel_ahash_final_def)
  next
    case 5
    then show ?thesis using z ne ne [symmetric] by (simp add: safexcel_ahash_final_def)
  next
    case 6
    then show ?thesis using z ne ne [symmetric] by (simp add: safexcel_ahash_final_def)
  qed
qed

text \<open>
  C10. A request with no byte counted (\<^verbatim>\<open>len[0]\<close> and \<^verbatim>\<open>len[1]\<close> zero) and an empty
  final buffer (\<^verbatim>\<open>nbytes\<close> zero), for one of the six hash algorithms and with a result
  buffer of at least the digest size: \<^verbatim>\<open>safexcel_ahash_final\<close> returns 0; the first
  bytes of the result buffer are the empty-message digest of that algorithm (the array of
  the algorithm's own name, in its digest size), the rest of the buffer is as before; the
  two flags of the request are set; and whatever \<^verbatim>\<open>safexcel_ahash_enqueue\<close> would do,
  the state of the context, queues and device is unchanged, so it was not called. With a
  byte counted or a final buffer that is not empty the result is that of
  \<^verbatim>\<open>safexcel_ahash_enqueue\<close>.
\<close>

theorem ahash_final_zero_length:
  "(\<forall>alg d n. len rq = (0, 0) \<and> nbytes areq = 0 \<and> (alg, d, n) \<in> set (zero_digest zh) \<and>
       length d = n \<and> n \<le> length (result areq) \<longrightarrow>
       safexcel_ahash_final zh enqueue alg rq areq w =
         Inr (0, rq\<lparr>last_req := True, finish := True\<rparr>,
              areq\<lparr>result := d @ drop n (result areq)\<rparr>, w)) \<and>
   (len rq \<noteq> (0, 0) \<or> nbytes areq \<noteq> 0 \<longrightarrow>
       safexcel_ahash_final zh enqueue alg0 rq areq w =
         (case enqueue (rq\<lparr>last_req := True, finish := True\<rparr>) areq w of
            (ret, rq2, w') \<Rightarrow> Inr (ret, rq2, areq, w')))"
proof (intro conjI allI impI)
  fix alg d n
  assume h: "len rq = (0, 0) \<and> nbytes areq = 0 \<and> (alg, d, n) \<in> set (zero_digest zh) \<and>
       length d = n \<and> n \<le> length (result areq)"
  then have m: "memcpy (result areq) d n = Inr (d @ drop n (result areq))"
    by (simp add: memcpy_def)
  from h have "len rq = (0, 0)" "nbytes areq = 0" "(alg, d, n) \<in> set (zero_digest zh)"
    by simp_all
  from final_zero_copy [OF this]
  show "safexcel_ahash_final zh enqueue alg rq areq w =
         Inr (0, rq\<lparr>last_req := True, finish := True\<rparr>,
              areq\<lparr>result := d @ drop n (result areq)\<rparr>, w)"
    by (simp add: m)
next
  assume "len rq \<noteq> (0, 0) \<or> nbytes areq \<noteq> 0"
  then have c: "\<not> (fst (len (rq\<lparr>last_req := True, finish := True\<rparr>)) = 0 \<and>
                 snd (len (rq\<lparr>last_req := True, finish := True\<rparr>)) = 0 \<and> nbytes areq = 0)"
    by (cases "len rq") auto
  show "safexcel_ahash_final zh enqueue alg0 rq areq w =
         (case enqueue (rq\<lparr>last_req := True, finish := True\<rparr>) areq w of
            (ret, rq2, w') \<Rightarrow> Inr (ret, rq2, areq, w'))"
    unfolding safexcel_ahash_final_def Let_def by (subst if_not_P [OF c]) (rule refl)
qed

theorem ahash_final_zero_length_witness:
  "safexcel_ahash_final demo_hashes demo_enqueue CONTEXT_CONTROL_CRYPTO_ALG_MD5
     demo_hash_req demo_ahash_request 7 =
     Inr (0, \<lparr>last_req = True, finish = True, len = (0, 0)\<rparr>,
          \<lparr>nbytes = 0,
           result = [0xd4, 0x1d, 0x8c, 0xd9, 0x8f, 0x00, 0xb2, 0x04, 0xe9, 0x80, 0x09, 0x98,
                     0xec, 0xf8, 0x42, 0x7e, 0xff, 0xff, 0xff, 0xff]\<rparr>, 7) \<and>
   safexcel_ahash_final demo_hashes demo_enqueue CONTEXT_CONTROL_CRYPTO_ALG_MD5
     (demo_hash_req\<lparr>len := (64, 0)\<rparr>) demo_ahash_request 7 =
     Inr (- 115, \<lparr>last_req = True, finish = True, len = (64, 0)\<rparr>, demo_ahash_request, 8)"
proof -
  note t = ahash_final_zero_length [where zh = demo_hashes and enqueue = demo_enqueue
      and w = "7 :: nat" and areq = demo_ahash_request]
  have h1: "len demo_hash_req = (0, 0) \<and> nbytes demo_ahash_request = 0 \<and>
      (CONTEXT_CONTROL_CRYPTO_ALG_MD5, md5_zero_message_hash demo_hashes, 16)
         \<in> set (zero_digest demo_hashes) \<and>
      length (md5_zero_message_hash demo_hashes) = 16 \<and>
      16 \<le> length (result demo_ahash_request)"
    by (simp add: demo_hash_req_def demo_ahash_request_def zero_digest_def demo_hashes_def)
  have a: "safexcel_ahash_final demo_hashes demo_enqueue CONTEXT_CONTROL_CRYPTO_ALG_MD5
     demo_hash_req demo_ahash_request 7 =
     Inr (0, demo_hash_req\<lparr>last_req := True, finish := True\<rparr>,
          demo_ahash_request\<lparr>result := md5_zero_message_hash demo_hashes @
             drop 16 (result demo_ahash_request)\<rparr>, 7)"
    by (rule t [where rq = demo_hash_req, THEN conjunct1, rule_format, OF h1])
  have h2: "len (demo_hash_req\<lparr>len := (64, 0)\<rparr>) \<noteq> (0, 0) \<or> nbytes demo_ahash_request \<noteq> 0"
    by simp
  have b: "safexcel_ahash_final demo_hashes demo_enqueue CONTEXT_CONTROL_CRYPTO_ALG_MD5
     (demo_hash_req\<lparr>len := (64, 0)\<rparr>) demo_ahash_request 7 =
     (case demo_enqueue (demo_hash_req\<lparr>len := (64, 0)\<rparr>\<lparr>last_req := True, finish := True\<rparr>)
             demo_ahash_request 7 of
        (ret, rq2, w') \<Rightarrow> Inr (ret, rq2, demo_ahash_request, w'))"
    by (rule t [where rq = "demo_hash_req\<lparr>len := (64, 0)\<rparr>", THEN conjunct2, rule_format, OF h2])
  show ?thesis
    unfolding a b
    by (simp add: demo_hash_req_def demo_ahash_request_def demo_hashes_def demo_enqueue_def
        numeral_eq_Suc)
qed

section \<open>The in-flight counter\<close>

subsection \<open>The events of a completion run\<close>

lemma int32_eq_add:
  "int32 a = int32 a' \<Longrightarrow> int32 b = int32 b' \<Longrightarrow> int32 (a + b) = int32 (a' + b')"
  by (metis int32_add_left int32_add_right)

lemma int32_eq_diff:
  "int32 a = int32 a' \<Longrightarrow> int32 b = int32 b' \<Longrightarrow> int32 (a - b) = int32 (a' - b')"
  by (metis int32_diff_left int32_diff_right)

lemma completed_append: "completed (xs @ ys) = completed xs + completed ys"
  by (simp add: completed_def)

lemma hrd_post_refl: "hrd_post 0 handled ev (handled, tot, ev)"
  unfolding hrd_post_def by (simp add: completed_def)

lemma hrd_post_not_ready:
  "\<not> handles e \<Longrightarrow> result_event e \<Longrightarrow>
     hrd_post nreq handled ev (int32 (handled - nreq), tot, ev @ [e])"
  unfolding hrd_post_def
  apply (simp only: prod.case)
  apply (rule exI [of _ "[e]"])
  apply (simp add: completed_def int32_idem)
  done

lemma hrd_post_empty: "hrd_post nreq handled ev (int32 (handled - nreq), tot, ev)"
  unfolding hrd_post_def by (simp add: completed_def int32_idem)

lemma hrd_post_step:
  assumes "hrd_post (int32 (nreq - 1)) handled (ev @ es) res"
    and "\<forall>e\<in>set es. result_event e" "completed es = 1"
  shows "hrd_post nreq handled ev res"
proof -
  obtain h' t' ev' where res: "res = (h', t', ev')" by (cases res)
  from assms(1) obtain hs where
    ev': "ev' = (ev @ es) @ hs" and re: "\<forall>e\<in>set hs. result_event e"
    and h': "int32 h' = int32 (handled - int32 (nreq - 1) + completed hs)"
    unfolding hrd_post_def res by (auto simp only: prod.case)
  have "int32 (handled - int32 (nreq - 1) + completed hs) =
        int32 (int32 (handled - int32 (nreq - 1)) + completed hs)"
    by (simp only: int32_add_left)
  also have "\<dots> = int32 (int32 (handled - (nreq - 1)) + completed hs)"
    by (simp only: int32_diff_right)
  also have "\<dots> = int32 (handled - (nreq - 1) + completed hs)"
    by (simp only: int32_add_left)
  also have "handled - (nreq - 1) + completed hs = handled - nreq + completed (es @ hs)"
    by (simp add: completed_append assms(3))
  finally have h: "int32 h' = int32 (handled - nreq + completed (es @ hs))"
    using h' by simp
  show ?thesis
    unfolding hrd_post_def res
    apply (simp only: prod.case)
    apply (rule exI [of _ "es @ hs"])
    using ev' re h assms(2) by auto
qed

lemma hrd_post_scan:
  assumes "hrd_post 1 (int32 (handled + 1)) ev res"
  shows "hrd_post 0 handled ev res"
proof -
  obtain h' t' ev' where res: "res = (h', t', ev')" by (cases res)
  from assms obtain hs where
    ev': "ev' = ev @ hs" and re: "\<forall>e\<in>set hs. result_event e"
    and h': "int32 h' = int32 (int32 (handled + 1) - 1 + completed hs)"
    unfolding hrd_post_def res by (auto simp only: prod.case)
  have "int32 (int32 (handled + 1) - 1 + completed hs) =
        int32 (int32 (handled + 1) + (completed hs - 1))"
    by (simp add: algebra_simps)
  also have "\<dots> = int32 (handled + 1 + (completed hs - 1))"
    by (simp only: int32_add_left)
  also have "\<dots> = int32 (handled - 0 + completed hs)" by simp
  finally have h: "int32 h' = int32 (handled - 0 + completed hs)" using h' by simp
  show ?thesis
    unfolding hrd_post_def res
    apply (simp only: prod.case)
    apply (rule exI [of _ hs])
    using ev' re h by auto
qed

lemma hrd_loops:
  "hrd_post nreq handled ev (hrd_loop nreq handled tot results scans ev)"
  "hrd_post nreq handled ev (hrd_one_more_req nreq handled tot results scans ev)"
proof (induction nreq handled tot results scans ev and nreq handled tot results scans ev
       rule: hrd_loop_hrd_one_more_req.induct)
  case (1 nreq handled tot results scans ev)
  show ?case
  proof (cases "nreq \<noteq> 0")
    case True
    then show ?thesis using "1.IH"(1) by simp
  next
    case z: False
    show ?thesis
    proof (cases scans)
      case Nil
      then show ?thesis using z hrd_post_refl [of handled ev tot] by simp
    next
      case (Cons found scans')
      show ?thesis
      proof (cases "EIP197_RD_OWN_WORD \<and> found")
        case True
        from "1.IH"(2) [OF z Cons True]
        have "hrd_post 0 handled ev
                (hrd_one_more_req 1 (int32 (handled + 1)) tot results scans' ev)"
          by (rule hrd_post_scan)
        then show ?thesis using z Cons True by simp
      next
        case False
        then show ?thesis using z Cons hrd_post_refl [of handled ev tot] by auto
      qed
    qed
  qed
next
  case (2 nreq handled tot scans ev)
  show ?case using hrd_post_empty [of nreq handled ev tot] by simp
next
  case (3 nreq handled tot r ndesc should_complete ret results scans ev)
  let ?e = "HandleResult r ndesc should_complete ret"
  have unf: "hrd_one_more_req nreq handled tot ((r, ndesc, should_complete, ret) # results)
               scans ev =
     (if should_complete
      then hrd_loop (int32 (nreq - 1)) handled (int32 (tot + ndesc)) results scans
             ((ev @ [?e]) @ [ReqComplete r ret])
      else if EIP197_RD_OWN_WORD \<and> ndesc = 0
      then (int32 (handled - nreq), tot, ev @ [?e])
      else hrd_loop (int32 (nreq - 1)) handled (int32 (tot + ndesc)) results scans (ev @ [?e]))"
    by (simp only: hrd_one_more_req.simps Let_def)
  show ?case
  proof (cases should_complete)
    case True
    have re: "\<forall>e\<in>set [?e, ReqComplete r ret]. result_event e" by simp
    have one: "completed [?e, ReqComplete r ret] = 1"
      using True by (simp add: completed_def)
    have "hrd_post (int32 (nreq - 1)) handled (ev @ [?e, ReqComplete r ret])
            (hrd_loop (int32 (nreq - 1)) handled (int32 (tot + ndesc)) results scans
               ((ev @ [?e]) @ [ReqComplete r ret]))"
      using "3.IH"(1) [OF refl True] by (simp only: append_assoc append.simps)
    from hrd_post_step [OF this re one]
    show ?thesis unfolding unf using True by (simp only: if_True)
  next
    case nc: False
    show ?thesis
    proof (cases "EIP197_RD_OWN_WORD \<and> ndesc = 0")
      case True
      have nh: "\<not> handles ?e" using nc True by simp
      have re: "result_event ?e" by simp
      have val: "hrd_one_more_req nreq handled tot
                   ((r, ndesc, should_complete, ret) # results) scans ev =
                 (int32 (handled - nreq), tot, ev @ [?e])"
        unfolding unf using nc True by simp
      show ?thesis unfolding val by (rule hrd_post_not_ready [OF nh re])
    next
      case False
      then have nd: "ndesc \<noteq> 0" by (simp add: EIP197_RD_OWN_WORD_def)
      have re: "\<forall>e\<in>set [?e]. result_event e" by simp
      have one: "completed [?e] = 1" using nd by (simp add: completed_def)
      have "hrd_post (int32 (nreq - 1)) handled (ev @ [?e])
              (hrd_loop (int32 (nreq - 1)) handled (int32 (tot + ndesc)) results scans
                 (ev @ [?e]))"
        by (rule "3.IH"(2) [OF refl nc False])
      then have p: "hrd_post nreq handled ev
              (hrd_loop (int32 (nreq - 1)) handled (int32 (tot + ndesc)) results scans
                 (ev @ [?e]))"
        using re one by (rule hrd_post_step)
      have val: "hrd_one_more_req nreq handled tot
                   ((r, ndesc, should_complete, ret) # results) scans ev =
                 hrd_loop (int32 (nreq - 1)) handled (int32 (tot + ndesc)) results scans
                   (ev @ [?e])"
        unfolding unf using nc False by (simp only: if_False)
      show ?thesis unfolding val by (rule p)
    qed
  qed
qed

lemma proc_ack_loop_post:
  "\<exists>acks. snd (proc_ack_loop i ev) = ev @ acks \<and> (\<forall>e\<in>set acks. proc_ack e)"
proof (induction i ev rule: proc_ack_loop.induct)
  case (1 i ev)
  let ?w = "Writel (EIP197_xDR_PROC_xD_PKT EIP197_xDR_PROC_xD_PKT_MASK) RDR_PROC_COUNT"
  show ?case
  proof (cases "ulong i > EIP197_xDR_PROC_xD_PKT_MASK")
    case True
    from "1.IH" [OF True] obtain acks where
      a: "snd (proc_ack_loop (int32 (i - EIP197_xDR_PROC_xD_PKT_MASK)) (ev @ [?w])) =
            (ev @ [?w]) @ acks"
      and b: "\<forall>e\<in>set acks. proc_ack e" by blast
    have unf: "proc_ack_loop i ev =
                 proc_ack_loop (int32 (i - EIP197_xDR_PROC_xD_PKT_MASK)) (ev @ [?w])"
      by (subst proc_ack_loop.simps) (simp only: True if_True)
    have "snd (proc_ack_loop i ev) = ev @ (?w # acks)" unfolding unf a by simp
    moreover have "\<forall>e\<in>set (?w # acks). proc_ack e" using b by simp
    ultimately show ?thesis by blast
  next
    case False
    have unf: "proc_ack_loop i ev = (i, ev)"
      by (subst proc_ack_loop.simps) (simp only: False if_False)
    show ?thesis unfolding unf by (rule exI [of _ "[]"]) simp
  qed
qed

lemma handle_results_post:
  assumes "handle_results cfg rg stat results scans = (handled, ev2)"
  shows "\<exists>hs acks. ev2 = hs @ acks \<and> (\<forall>e\<in>set hs. result_event e) \<and>
                   (\<forall>e\<in>set acks. proc_ack e) \<and> int32 handled = int32 (completed hs)"
proof (cases "EIP197_AVOID_DEV_READ \<and> stat AND EIP197_xDR_THRESH = 0")
  case True
  then have "handled = 0" "ev2 = []"
    using assms unfolding handle_results_def by simp_all
  then show ?thesis by (simp add: completed_def)
next
  case False
  define nreq where "nreq = thresh_written rg"
  obtain h tot ev1 where loop: "hrd_loop nreq nreq 0 results scans [] = (h, tot, ev1)"
    by (cases "hrd_loop nreq nreq 0 results scans ([] :: 'a event list)")
  have "hrd_post nreq nreq [] (h, tot, ev1)"
    using hrd_loops(1) [of nreq nreq "[]" 0 results scans] loop by simp
  then have re: "\<forall>e\<in>set ev1. result_event e" and h: "int32 h = int32 (completed ev1)"
    unfolding hrd_post_def by (auto simp only: prod.case) auto
  show ?thesis
  proof (cases "h = 0")
    case True
    then have "handled = h" "ev2 = ev1"
      using assms False loop unfolding handle_results_def Let_def nreq_def [symmetric]
      by simp_all
    then show ?thesis using re h by (intro exI [of _ ev1] exI [of _ "[]"]) simp
  next
    case nz: False
    obtain i ev where ack: "proc_ack_loop h ev1 = (i, ev)" by (cases "proc_ack_loop h ev1")
    from proc_ack_loop_post [of h ev1] obtain acks where
      ev: "ev = ev1 @ acks" and pa: "\<forall>e\<in>set acks. proc_ack e"
      using ack by auto
    let ?w = "Writel (EIP197_xDR_PROC_xD_PKT i OR word_of_int tot * rd_offset cfg) RDR_PROC_COUNT"
    have "handled = h" "ev2 = ev @ [?w]"
      using assms False loop nz ack unfolding handle_results_def Let_def nreq_def [symmetric]
      by simp_all
    then show ?thesis
      using re h ev pa by (intro exI [of _ ev1] exI [of _ "acks @ [?w]"]) simp
  qed
qed

lemma handle_results_finish_post:
  assumes "handle_results_finish rg handled ev2 = (rg', ev)"
  shows "\<exists>post. ev = ev2 @ [RequestsSub handled, Writel 0xff RDR_STAT] @ post \<and>
                (post = [] \<or> (\<exists>v. post = [Writel v RDR_THRESH])) \<and>
                requests rg' = int32 (requests rg - handled)"
proof -
  define rg1 where "rg1 = rg\<lparr>requests := int32 (requests rg - handled), busy := False\<rparr>"
  obtain rg2 ev4 where tp: "safexcel_try_push_requests rg1 = (rg2, ev4)"
    by (cases "safexcel_try_push_requests rg1")
  have ev4: "ev4 = [Writel (thresh_value (requests rg1)) RDR_THRESH]"
    using try_push_events [of rg1] tp by simp
  have r2: "requests rg2 = requests rg1"
    using try_push_requests [of rg1] tp by simp
  show ?thesis
  proof (cases "requests rg1 = 0")
    case True
    then have "rg' = rg1" "ev = ev2 @ [RequestsSub handled, Writel 0xff RDR_STAT]"
      using assms unfolding handle_results_finish_def rg1_def by (simp_all add: Let_def)
    then show ?thesis by (simp add: rg1_def)
  next
    case False
    then have "rg' = rg2\<lparr>busy := True\<rparr>"
      "ev = ev2 @ [RequestsSub handled, Writel 0xff RDR_STAT] @ ev4"
      using assms tp unfolding handle_results_finish_def rg1_def by (auto simp: Let_def)
    then show ?thesis using ev4 r2 by (simp add: rg1_def)
  qed
qed

lemma completion_events_shape:
  "\<exists>hs acks h post.
     completion_events run = hs @ acks @ [RequestsSub h, Writel 0xff RDR_STAT] @ post \<and>
     int32 h = int32 (completed hs) \<and>
     (\<forall>e\<in>set hs. result_event e) \<and> (\<forall>e\<in>set acks. proc_ack e) \<and>
     (post = [] \<or> (\<exists>v. post = [Writel v RDR_THRESH])) \<and>
     (\<forall>cfg rg stat results scans. run = (cfg, rg, stat, results, scans) \<longrightarrow>
        requests (fst (safexcel_handle_result_descriptor cfg rg stat results scans)) =
          int32 (requests rg - h))"
proof -
  obtain cfg rg stat results scans where run: "run = (cfg, rg, stat, results, scans)"
    by (cases run)
  obtain handled ev2 where h: "handle_results cfg rg stat results scans = (handled, ev2)"
    by (cases "handle_results cfg rg stat results scans")
  obtain rg' ev where f: "handle_results_finish rg handled ev2 = (rg', ev)"
    by (cases "handle_results_finish rg handled ev2")
  have ce: "completion_events run = ev"
    by (simp add: completion_events_def run safexcel_handle_result_descriptor_def h f)
  have rq: "fst (safexcel_handle_result_descriptor cfg rg stat results scans) = rg'"
    by (simp add: safexcel_handle_result_descriptor_def h f)
  from handle_results_post [OF h] obtain hs acks where
    ev2: "ev2 = hs @ acks" and re: "\<forall>e\<in>set hs. result_event e"
    and pa: "\<forall>e\<in>set acks. proc_ack e" and hd: "int32 handled = int32 (completed hs)"
    by blast
  from handle_results_finish_post [OF f] obtain post where
    ev: "ev = ev2 @ [RequestsSub handled, Writel 0xff RDR_STAT] @ post"
    and post: "post = [] \<or> (\<exists>v. post = [Writel v RDR_THRESH])"
    and r: "requests rg' = int32 (requests rg - handled)"
    by blast
  have "completion_events run =
          hs @ acks @ [RequestsSub handled, Writel 0xff RDR_STAT] @ post"
    unfolding ce ev ev2 by simp
  moreover have "\<forall>cfg' rg0 stat' results' scans'. run = (cfg', rg0, stat', results', scans') \<longrightarrow>
        requests (fst (safexcel_handle_result_descriptor cfg' rg0 stat' results' scans')) =
          int32 (requests rg0 - handled)"
    using run rq r by simp
  ultimately show ?thesis using re pa post hd by blast
qed

lemma dequeue_events_shape:
  "\<exists>evs v1 v2 post.
     dequeue_events run =
       Writel EIP197_HIA_RDR_THRESH_PKT_MODE RDR_THRESH # evs @
         [Writel v1 CDR_PREP_COUNT, RequestsAdd (int32 (admitted evs)),
          Writel v2 RDR_PREP_COUNT] @ post \<and>
     (\<forall>e\<in>set evs. call_event e) \<and>
     (post = [] \<or> (\<exists>v. post = [Writel v RDR_THRESH])) \<and>
     (\<forall>cfg send rg q s. run = (cfg, send, rg, q, s) \<longrightarrow>
        requests (fst (safexcel_dequeue cfg send rg q s)) =
          int32 (requests rg + admitted evs))"
proof -
  obtain cfg send rg q s where run: "run = (cfg, send, rg, q, s)"
    by (cases run)
  obtain rg' q' s' ev where r: "safexcel_dequeue cfg send rg q s = (rg', q', s', ev)"
    by (metis prod_cases4)
  have de: "dequeue_events run = ev" by (simp add: dequeue_events_def run r)
  from dequeue_post [OF r] obtain evs v1 v2 post where
    ev: "ev = Writel EIP197_HIA_RDR_THRESH_PKT_MODE RDR_THRESH # evs @
                  [Writel v1 CDR_PREP_COUNT, RequestsAdd (int32 (admitted evs)),
                   Writel v2 RDR_PREP_COUNT] @ post"
    and ce: "\<forall>e\<in>set evs. call_event e"
    and post: "post = [] \<or> (\<exists>v. post = [Writel v RDR_THRESH])"
    and rq: "requests rg' = int32 (requests rg + admitted evs)"
    by blast
  have "\<forall>cfg' send' rg0 q0 s0. run = (cfg', send', rg0, q0, s0) \<longrightarrow>
        requests (fst (safexcel_dequeue cfg' send' rg0 q0 s0)) =
          int32 (requests rg0 + admitted evs)"
    using run r rq by simp
  then show ?thesis using ev ce post unfolding de by blast
qed

subsection \<open>Counting up to a mark\<close>

lemma fold_neutral:
  "\<forall>e\<in>set xs. st u e = u \<Longrightarrow> foldl st u xs = u"
  by (induction xs) simp_all

lemma tally_shift:
  "foldl (tally_step c m) (p, d + k) xs =
     (fst (foldl (tally_step c m) (p, d) xs), snd (foldl (tally_step c m) (p, d) xs) + k)"
proof (induction xs arbitrary: p d)
  case Nil
  show ?case by simp
next
  case (Cons a xs)
  show ?case
  proof (cases "m a")
    case True
    have e: "d + k + p = (d + p) + k" by simp
    have "foldl (tally_step c m) (0, d + k + p) xs =
       (fst (foldl (tally_step c m) (0, d + p) xs),
        snd (foldl (tally_step c m) (0, d + p) xs) + k)"
      unfolding e by (rule Cons.IH)
    then show ?thesis using True by simp
  next
    case False
    show ?thesis
    proof (cases "c a")
      case True
      then show ?thesis using False Cons.IH [of "p + 1" d] by simp
    next
      case nc: False
      then show ?thesis using False Cons.IH [of p d] by simp
    qed
  qed
qed

lemma tally_total:
  assumes "\<forall>e. m e \<longrightarrow> \<not> c e"
  shows "fst (foldl (tally_step c m) (p, d) xs) + snd (foldl (tally_step c m) (p, d) xs) =
           p + d + int (length (filter c xs))"
  using assms by (induction xs arbitrary: p d) simp_all

lemma tally_pending:
  "0 \<le> p \<Longrightarrow> 0 \<le> fst (foldl (tally_step c m) (p, d) xs)"
  by (induction xs arbitrary: p d) simp_all

lemma tally_nonneg: "0 \<le> tally c m xs"
proof -
  have "0 \<le> p \<Longrightarrow> 0 \<le> d \<Longrightarrow> 0 \<le> snd (foldl (tally_step c m) (p, d) xs)" for p d
    by (induction xs arbitrary: p d) simp_all
  then show ?thesis unfolding tally_def by simp
qed

lemma tally_le:
  assumes "\<forall>e. m e \<longrightarrow> \<not> c e"
  shows "tally c m xs \<le> int (length (filter c xs))"
  using tally_total [OF assms, of 0 0 xs] tally_pending [of 0 c m 0 xs]
  unfolding tally_def by simp

lemma tally_no_mark:
  assumes "\<forall>e\<in>set xs. \<not> m e"
  shows "tally c m xs = 0"
proof -
  have "snd (foldl (tally_step c m) (p, d) xs) = d" for p d
    using assms by (induction xs arbitrary: p d) simp_all
  then show ?thesis unfolding tally_def by simp
qed

lemma tally_append:
  assumes "\<forall>e. m e \<longrightarrow> \<not> c e" "tally c m a = int (length (filter c a))"
  shows "tally c m (a @ b) = tally c m a + tally c m b"
proof -
  have "fst (foldl (tally_step c m) (0, 0) a) = 0"
    using tally_total [OF assms(1), of 0 0 a] assms(2) unfolding tally_def by simp
  then have s: "foldl (tally_step c m) (0, 0) a = (0, 0 + tally c m a)"
    unfolding tally_def by (cases "foldl (tally_step c m) (0, 0) a") simp
  show ?thesis
    unfolding tally_def [of c m "a @ b"] foldl_append s tally_shift
    by (simp add: tally_def)
qed

lemma tally_snoc_mark:
  assumes "\<forall>e. m e \<longrightarrow> \<not> c e" "m e"
  shows "tally c m (xs @ [e]) = int (length (filter c xs))"
proof -
  obtain p d where s: "foldl (tally_step c m) (0, 0) xs = (p, d)"
    by (cases "foldl (tally_step c m) (0, 0) xs")
  have "p + d = int (length (filter c xs))"
    using tally_total [OF assms(1), of 0 0 xs] s by simp
  then show ?thesis unfolding tally_def using s assms(2) by simp
qed

lemma tally_snoc_other:
  assumes "\<not> m e"
  shows "tally c m (xs @ [e]) = tally c m xs"
proof -
  obtain p d where s: "foldl (tally_step c m) (0, 0) xs = (p, d)"
    by (cases "foldl (tally_step c m) (0, 0) xs")
  show ?thesis unfolding tally_def using s assms by simp
qed

lemma mark_not_counted:
  "\<forall>e :: 'r event. counter_add e \<longrightarrow> \<not> admits e"
  "\<forall>e :: 'r event. publishes e \<longrightarrow> \<not> admits e"
  "\<forall>e :: 'r event. counter_sub e \<longrightarrow> \<not> handles e"
proof -
  show "\<forall>e :: 'r event. counter_add e \<longrightarrow> \<not> admits e"
  proof
    fix e :: "'r event" show "counter_add e \<longrightarrow> \<not> admits e" by (cases e) simp_all
  qed
  show "\<forall>e :: 'r event. publishes e \<longrightarrow> \<not> admits e"
  proof
    fix e :: "'r event" show "publishes e \<longrightarrow> \<not> admits e" by (cases e) simp_all
  qed
  show "\<forall>e :: 'r event. counter_sub e \<longrightarrow> \<not> handles e"
  proof
    fix e :: "'r event" show "counter_sub e \<longrightarrow> \<not> handles e" by (cases e) simp_all
  qed
qed

subsection \<open>Interleavings\<close>

lemma shuffles_sum:
  fixes w :: "'a \<Rightarrow> int"
  shows "p \<in> shuffles px py \<Longrightarrow>
         sum_list (map w p) = sum_list (map w px) + sum_list (map w py)"
proof (induction px py arbitrary: p rule: shuffles.induct)
  case (1 ys)
  then show ?case by simp
next
  case (2 xs)
  then show ?case by simp
next
  case (3 x xs y ys)
  from "3.prems" consider
    (l) p' where "p = x # p'" "p' \<in> shuffles xs (y # ys)"
    | (r) p' where "p = y # p'" "p' \<in> shuffles (x # xs) ys"
    by auto
  then show ?case
  proof cases
    case l
    then show ?thesis using "3.IH"(1) [of p'] by (simp add: algebra_simps)
  next
    case r
    then show ?thesis using "3.IH"(2) [of p'] by (simp add: algebra_simps)
  qed
qed

lemma shuffles_fold_left:
  "p \<in> shuffles px py \<Longrightarrow> \<forall>e\<in>set py. \<forall>x. st x e = x \<Longrightarrow> foldl st x p = foldl st x px"
proof (induction px py arbitrary: p x rule: shuffles.induct)
  case (1 ys)
  then have "p = ys" by simp
  moreover have "foldl st x ys = x" using "1.prems"(2)
    by (induction ys arbitrary: x) simp_all
  ultimately show ?case by simp
next
  case (2 xs)
  then show ?case by simp
next
  case (3 a xs b ys)
  from "3.prems"(1) consider
    (l) p' where "p = a # p'" "p' \<in> shuffles xs (b # ys)"
    | (r) p' where "p = b # p'" "p' \<in> shuffles (a # xs) ys"
    by auto
  then show ?case
  proof cases
    case l
    then show ?thesis using "3.IH"(1) [of p' "st x a"] "3.prems"(2) by simp
  next
    case r
    have "st x b = x" using "3.prems"(2) by simp
    then show ?thesis using r "3.IH"(2) [of p' x] "3.prems"(2) by simp
  qed
qed

lemma shuffles_prefix:
  "t \<in> shuffles xs ys \<Longrightarrow> prefix p t \<Longrightarrow>
     \<exists>px py. prefix px xs \<and> prefix py ys \<and> p \<in> shuffles px py"
proof (induction xs ys arbitrary: t p rule: shuffles.induct)
  case (1 ys)
  then have "prefix p ys" by simp
  then show ?case by (intro exI [of _ "[]"] exI [of _ p]) simp
next
  case (2 xs)
  then have "prefix p xs" by simp
  then show ?case by (intro exI [of _ p] exI [of _ "[]"]) simp
next
  case (3 x xs y ys)
  show ?case
  proof (cases p)
    case Nil
    then show ?thesis by (intro exI [of _ "[]"]) simp
  next
    case (Cons a p')
    from "3.prems"(1) consider
      (l) t' where "t = x # t'" "t' \<in> shuffles xs (y # ys)"
      | (r) t' where "t = y # t'" "t' \<in> shuffles (x # xs) ys"
      by auto
    then show ?thesis
    proof cases
      case l
      then have a: "a = x" and pp: "prefix p' t'" using "3.prems"(2) Cons by simp_all
      from "3.IH"(1) [OF l(2) pp] obtain px py where
        "prefix px xs" "prefix py (y # ys)" "p' \<in> shuffles px py" by blast
      then have "prefix (x # px) (x # xs) \<and> prefix py (y # ys) \<and> p \<in> shuffles (x # px) py"
        using Cons a by (simp add: Cons_in_shuffles_leftI)
      then show ?thesis by blast
    next
      case r
      then have a: "a = y" and pp: "prefix p' t'" using "3.prems"(2) Cons by simp_all
      from "3.IH"(2) [OF r(2) pp] obtain px py where
        "prefix px (x # xs)" "prefix py ys" "p' \<in> shuffles px py" by blast
      then have "prefix px (x # xs) \<and> prefix (y # py) (y # ys) \<and> p \<in> shuffles px (y # py)"
        using Cons a by (simp add: Cons_in_shuffles_rightI)
      then show ?thesis by blast
    qed
  qed
qed

lemma shuffles_tally:
  assumes "p \<in> shuffles px py" "\<forall>e\<in>set py. \<not> c e \<and> \<not> m e"
  shows "tally c m p = tally c m px"
proof -
  have "\<forall>e\<in>set py. \<forall>x. tally_step c m x e = x"
  proof (intro ballI allI)
    fix e x assume "e \<in> set py"
    then have "\<not> c e \<and> \<not> m e" using assms(2) by blast
    then show "tally_step c m x e = x" by (cases x) simp
  qed
  from shuffles_fold_left [OF assms(1) this] show ?thesis unfolding tally_def by simp
qed

lemma shuffles_count:
  assumes "p \<in> shuffles px py"
  shows "int (length (filter c p)) = int (length (filter c px)) + int (length (filter c py))"
proof -
  have c: "int (length (filter c t)) = sum_list (map (\<lambda>e. if c e then 1 else 0) t)"
    for t :: "'a list"
    by (induction t) simp_all
  show ?thesis unfolding c by (rule shuffles_sum [OF assms])
qed

subsection \<open>The counter along a trace\<close>

lemma add_sum_simps: "add_sum [] = 0" "add_sum (e # t) = added e + add_sum t"
  "add_sum (xs @ ys) = add_sum xs + add_sum ys"
  by (simp_all add: add_sum_def)

lemma sub_sum_simps: "sub_sum [] = 0" "sub_sum (e # t) = removed e + sub_sum t"
  "sub_sum (xs @ ys) = sub_sum xs + sub_sum ys"
  by (simp_all add: sub_sum_def)

lemma counter_step_amounts: "counter_step c e = (if counter_add e \<or> counter_sub e
         then int32 (c + added e - removed e) else c)"
  by (cases e) simp_all

lemma counter_fold:
  "int32 c = c \<Longrightarrow> foldl counter_step c t = int32 (c + add_sum t - sub_sum t)"
proof (induction t arbitrary: c)
  case Nil
  then show ?case by (simp add: add_sum_simps sub_sum_simps)
next
  case (Cons e t)
  show ?case
  proof (cases "counter_add e \<or> counter_sub e")
    case True
    have s: "counter_step c e = int32 (c + added e - removed e)"
      using True by (simp add: counter_step_amounts)
    have "foldl counter_step (counter_step c e) t =
            int32 (int32 (c + added e - removed e) + add_sum t - sub_sum t)"
      unfolding s by (rule Cons.IH) (rule int32_idem)
    also have "\<dots> = int32 (int32 (c + added e - removed e) + (add_sum t - sub_sum t))"
      by (simp add: algebra_simps)
    also have "\<dots> = int32 (c + added e - removed e + (add_sum t - sub_sum t))"
      by (simp only: int32_add_left)
    also have "c + added e - removed e + (add_sum t - sub_sum t) =
               c + add_sum (e # t) - sub_sum (e # t)"
      by (simp add: add_sum_simps sub_sum_simps)
    finally show ?thesis by simp
  next
    case False
    then have z: "added e = 0" "removed e = 0" by (cases e; simp)+
    have s: "counter_step c e = c" using False by (simp add: counter_step_amounts)
    show ?thesis using Cons.IH [OF Cons.prems] s z
      by (simp add: add_sum_simps sub_sum_simps)
  qed
qed

lemma sum_zero: "\<forall>e\<in>set xs. (w e :: int) = 0 \<Longrightarrow> sum_list (map w xs) = 0"
  by (induction xs) simp_all

lemma add_sum_zero: "\<forall>e\<in>set xs. \<not> counter_add e \<Longrightarrow> add_sum xs = 0"
proof -
  assume a: "\<forall>e\<in>set xs. \<not> counter_add e"
  have "\<forall>e\<in>set xs. added e = 0"
  proof
    fix e assume "e \<in> set xs"
    then have "\<not> counter_add e" using a by blast
    then show "added e = 0" by (cases e) simp_all
  qed
  then show ?thesis unfolding add_sum_def by (rule sum_zero)
qed

lemma sub_sum_zero: "\<forall>e\<in>set xs. \<not> counter_sub e \<Longrightarrow> sub_sum xs = 0"
proof -
  assume a: "\<forall>e\<in>set xs. \<not> counter_sub e"
  have "\<forall>e\<in>set xs. removed e = 0"
  proof
    fix e assume "e \<in> set xs"
    then have "\<not> counter_sub e" using a by blast
    then show "removed e = 0" by (cases e) simp_all
  qed
  then show ?thesis unfolding sub_sum_def by (rule sum_zero)
qed

lemma completed_zero: "\<forall>e\<in>set xs. \<not> handles e \<Longrightarrow> completed xs = 0"
  by (induction xs) (simp_all add: completed_def)

lemma admitted_zero: "\<forall>e\<in>set xs. \<not> admits e \<Longrightarrow> admitted xs = 0"
  by (induction xs) (simp_all add: admitted_def)

lemma completed_nonneg: "0 \<le> completed xs"
  by (simp add: completed_def)

subsection \<open>The two threads\<close>

lemma call_event_quiet:
  assumes "call_event e"
  shows "\<not> handles e" "\<not> counter_sub e" "\<not> counter_add e" "\<not> publishes e"
  using assms by (cases e; simp)+

lemma result_event_quiet:
  assumes "result_event e"
  shows "\<not> admits e" "\<not> counter_add e" "\<not> publishes e" "\<not> counter_sub e"
  using assms by (cases e; simp)+

lemma proc_ack_quiet:
  assumes "proc_ack e"
  shows "\<not> admits e" "\<not> counter_add e" "\<not> publishes e" "\<not> counter_sub e" "\<not> handles e"
  using assms by (cases e; simp)+

lemma deq_thread_run:
  fixes run :: "safexcel_config \<times> ('r \<Rightarrow> 's \<Rightarrow> (int \<times> int \<times> int) \<times> 's) \<times> 'r safexcel_ring \<times>
     ('r option \<times> 'r) list \<times> 's"
  shows "deq_thread (dequeue_events run)"
proof -
  from dequeue_events_shape [of run] obtain evs v1 v2 post where
    tr: "dequeue_events run =
       Writel EIP197_HIA_RDR_THRESH_PKT_MODE RDR_THRESH # evs @
         [Writel v1 CDR_PREP_COUNT, RequestsAdd (int32 (admitted evs)),
          Writel v2 RDR_PREP_COUNT] @ post"
    and ce: "\<forall>e\<in>set evs. call_event e"
    and post: "post = [] \<or> (\<exists>v. post = [Writel v RDR_THRESH])"
    by blast
  define A where
    "A = Writel EIP197_HIA_RDR_THRESH_PKT_MODE RDR_THRESH # evs @ [Writel v1 CDR_PREP_COUNT]"
  define a :: "'r event" where "a = RequestsAdd (int32 (admitted evs))"
  define w :: "'r event" where "w = Writel v2 RDR_PREP_COUNT"
  have split: "dequeue_events run = A @ [a, w] @ post" unfolding tr A_def a_def w_def by simp
  have quietA: "\<forall>e\<in>set A. \<not> counter_add e \<and> \<not> publishes e \<and> \<not> handles e \<and> \<not> counter_sub e"
  proof
    fix e assume "e \<in> set A"
    then consider "e = Writel EIP197_HIA_RDR_THRESH_PKT_MODE RDR_THRESH" | "e \<in> set evs"
      | "e = Writel v1 CDR_PREP_COUNT"
      unfolding A_def by auto
    then show "\<not> counter_add e \<and> \<not> publishes e \<and> \<not> handles e \<and> \<not> counter_sub e"
    proof cases
      case 2
      then have "call_event e" using ce by blast
      then show ?thesis by (cases e) simp_all
    qed simp_all
  qed
  have quietP: "\<forall>e\<in>set post. \<not> counter_add e \<and> \<not> publishes e \<and> \<not> handles e \<and>
      \<not> counter_sub e \<and> \<not> admits e"
    using post by auto
  have admA: "int (length (filter admits A)) = admitted evs"
    unfolding A_def admitted_def by simp
  have addA: "add_sum A = 0" by (rule add_sum_zero) (use quietA in blast)
  have ma: "counter_add a" "\<not> publishes a" "\<not> admits a" "added a = int32 (admitted evs)"
    unfolding a_def by simp_all
  have mw: "publishes w" "\<not> counter_add w" "\<not> admits w" "added w = 0"
    unfolding w_def by simp_all
  have cA: "counted (A @ [a]) = admitted evs"
    unfolding counted_def using tally_snoc_mark [OF mark_not_counted(1) ma(1), of A] admA
    by simp
  have pA: "published (A @ [a]) = 0"
    unfolding published_def
    by (rule tally_no_mark) (use quietA ma(2) in auto)
  have cW: "counted ((A @ [a]) @ [w]) = admitted evs"
    unfolding counted_def using tally_snoc_other [where m = counter_add and e = w and c = admits and xs = "A @ [a]", OF mw(2)] cA
    by (simp add: counted_def)
  have pW: "published ((A @ [a]) @ [w]) = admitted evs"
    unfolding published_def
    using tally_snoc_mark [OF mark_not_counted(2) mw(1), of "A @ [a]"] admA ma(3)
    by simp
  have cP: "counted (((A @ [a]) @ [w]) @ post) = admitted evs"
    using post tally_snoc_other [of counter_add _ admits "(A @ [a]) @ [w]"] cW
    unfolding counted_def by auto
  have pP: "published (((A @ [a]) @ [w]) @ post) = admitted evs"
    using post tally_snoc_other [of publishes _ admits "(A @ [a]) @ [w]"] pW
    unfolding published_def by auto
  have sA: "add_sum (A @ [a]) = int32 (admitted evs)"
    "add_sum ((A @ [a]) @ [w]) = int32 (admitted evs)"
    "add_sum (((A @ [a]) @ [w]) @ post) = int32 (admitted evs)"
    using addA ma(4) mw(4) add_sum_zero [of post] quietP by (simp_all add: add_sum_simps)
  have ev: "\<forall>e\<in>set (dequeue_events run). \<not> handles e \<and> \<not> counter_sub e"
    unfolding split using quietA quietP by (auto simp: a_def w_def)
  have pre: "published px \<le> counted px \<and> int32 (add_sum px) = int32 (counted px)"
    if "prefix px (dequeue_events run)" for px
  proof -
    from that consider (inA) "prefix px A" | (inB) px' where "px = A @ px'" "prefix px' ([a, w] @ post)"
      unfolding split prefix_append by blast
    then show ?thesis
    proof cases
      case inA
      then have "set px \<subseteq> set A" by (rule set_mono_prefix)
      then have q: "\<forall>e\<in>set px. \<not> counter_add e \<and> \<not> publishes e" using quietA by blast
      have "counted px = 0" unfolding counted_def by (rule tally_no_mark) (use q in blast)
      moreover have "published px = 0" unfolding published_def
        by (rule tally_no_mark) (use q in blast)
      moreover have "add_sum px = 0" by (rule add_sum_zero) (use q in blast)
      ultimately show ?thesis by simp
    next
      case inB
      from inB(2) post consider "px' = []" | "px' = [a]" | "px' = [a, w]" | "px' = [a, w] @ post"
        by (auto simp: prefix_Cons)
      then show ?thesis
      proof cases
        case 1
        have q: "\<forall>e\<in>set A. \<not> counter_add e \<and> \<not> publishes e" using quietA by blast
        have "counted A = 0" unfolding counted_def by (rule tally_no_mark) (use q in blast)
        moreover have "published A = 0" unfolding published_def
          by (rule tally_no_mark) (use q in blast)
        ultimately show ?thesis unfolding inB(1) 1 using addA by simp
      next
        case 2
        show ?thesis unfolding inB(1) 2 using cA pA sA(1) admitted_nonneg [of evs]
          by (simp add: int32_idem)
      next
        case 3
        have e: "A @ [a, w] = (A @ [a]) @ [w]" by simp
        show ?thesis unfolding inB(1) 3 e using cW pW sA(2) by (simp add: int32_idem)
      next
        case 4
        have e: "A @ [a, w] @ post = ((A @ [a]) @ [w]) @ post" by simp
        show ?thesis unfolding inB(1) 4 e using cP pP sA(3) by (simp add: int32_idem)
      qed
    qed
  qed
  have e: "dequeue_events run = ((A @ [a]) @ [w]) @ post" unfolding split by simp
  have adm: "admitted (dequeue_events run) = admitted evs"
    unfolding tr admitted_def using post by auto
  have fin: "counted (dequeue_events run) = admitted (dequeue_events run)"
    "published (dequeue_events run) = admitted (dequeue_events run)"
    unfolding adm unfolding e using cP pP by simp_all
  show ?thesis unfolding deq_thread_def using ev pre fin by blast
qed

lemma cmp_thread_run:
  fixes run :: "safexcel_config \<times> 'r safexcel_ring \<times> u32 \<times> ('r \<times> int \<times> bool \<times> int) list \<times>
     bool list"
  shows "cmp_thread (completion_events run)"
proof -
  from completion_events_shape [of run] obtain hs acks h post where
    tr: "completion_events run = hs @ acks @ [RequestsSub h, Writel 0xff RDR_STAT] @ post"
    and h: "int32 h = int32 (completed hs)"
    and he: "\<forall>e\<in>set hs. result_event e"
    and ae: "\<forall>e\<in>set acks. proc_ack e"
    and post: "post = [] \<or> (\<exists>v. post = [Writel v RDR_THRESH])"
    by blast
  define A where "A = hs @ acks"
  define s :: "'r event" where "s = RequestsSub h"
  define B where "B = Writel 0xff RDR_STAT # post"
  have split: "completion_events run = (A @ [s]) @ B" unfolding tr A_def s_def B_def by simp
  have quietA: "\<forall>e\<in>set A. \<not> admits e \<and> \<not> counter_add e \<and> \<not> publishes e \<and> \<not> counter_sub e"
  proof
    fix e assume "e \<in> set A"
    then consider "e \<in> set hs" | "e \<in> set acks" unfolding A_def by auto
    then show "\<not> admits e \<and> \<not> counter_add e \<and> \<not> publishes e \<and> \<not> counter_sub e"
    proof cases
      case 1
      then have "result_event e" using he by blast
      then show ?thesis by (cases e) simp_all
    next
      case 2
      then have "proc_ack e" using ae by blast
      then show ?thesis by (cases e) simp_all
    qed
  qed
  have quietB: "\<forall>e\<in>set B. \<not> admits e \<and> \<not> counter_add e \<and> \<not> publishes e \<and> \<not> counter_sub e \<and>
      \<not> handles e"
    unfolding B_def using post by auto
  have ms: "counter_sub s" "\<not> admits s" "\<not> counter_add s" "\<not> publishes s" "removed s = h"
    "\<not> handles s"
    unfolding s_def by simp_all
  have "\<forall>e\<in>set acks. \<not> handles e"
  proof
    fix e assume "e \<in> set acks"
    then have "proc_ack e" using ae by blast
    then show "\<not> handles e" by (cases e) simp_all
  qed
  then have "completed acks = 0" by (rule completed_zero)
  then have cmpA: "int (length (filter handles A)) = completed hs"
    unfolding A_def using completed_append [of hs acks] by (simp add: completed_def)
  have subA: "sub_sum A = 0" by (rule sub_sum_zero) (use quietA in blast)
  have relA: "released A = 0" unfolding released_def
    by (rule tally_no_mark) (use quietA in blast)
  have relS: "released (A @ [s]) = completed hs"
    unfolding released_def using tally_snoc_mark [OF mark_not_counted(3) ms(1), of A] cmpA
    by simp
  have subS: "sub_sum (A @ [s]) = h" using subA ms(5) by (simp add: sub_sum_simps)
  have relB: "released ((A @ [s]) @ p') = completed hs" if "prefix p' B" for p'
  proof -
    have "set p' \<subseteq> set B" using that by (rule set_mono_prefix)
    then have q: "\<forall>e\<in>set p'. \<not> counter_sub e" using quietB by blast
    have "\<forall>e\<in>set p'. tally_step handles counter_sub x e = x \<or> handles e" for x
      using q by (cases x) auto
    have "tally handles counter_sub ((A @ [s]) @ p') = tally handles counter_sub (A @ [s])"
      using q
    proof (induction p' rule: rev_induct)
      case Nil
      show ?case by simp
    next
      case (snoc e p')
      have "\<not> counter_sub e" using snoc.prems by simp
      from tally_snoc_other [where m = counter_sub and e = e and c = handles
          and xs = "(A @ [s]) @ p'", OF this] snoc
      show ?case by simp
    qed
    then show ?thesis using relS unfolding released_def by simp
  qed
  have subB: "sub_sum ((A @ [s]) @ p') = h" if "prefix p' B" for p'
  proof -
    have "set p' \<subseteq> set B" using that by (rule set_mono_prefix)
    then have "\<forall>e\<in>set p'. \<not> counter_sub e" using quietB by blast
    then have "sub_sum p' = 0" by (rule sub_sum_zero)
    then show ?thesis using subS by (simp add: sub_sum_simps)
  qed
  have ev: "\<forall>e\<in>set (completion_events run). \<not> admits e \<and> \<not> counter_add e \<and> \<not> publishes e"
    unfolding split using quietA quietB ms by auto
  have pre: "int32 (sub_sum py) = int32 (released py)"
    if pp: "prefix py (completion_events run)" for py
  proof -
    have "prefix py ((A @ [s]) @ B)" using pp unfolding split .
    then have "prefix py (A @ [s]) \<or> (\<exists>p'. py = (A @ [s]) @ p' \<and> prefix p' B)"
      by (rule prefix_append [THEN iffD1])
    moreover have "prefix py A \<or> py = (A @ [s]) @ []" if "prefix py (A @ [s])"
      using that by auto
    ultimately consider (inA) "prefix py A"
      | (inB) p' where "py = (A @ [s]) @ p'" "prefix p' B"
      by (metis Nil_prefix)
    then show ?thesis
    proof cases
      case inA
      then have "set py \<subseteq> set A" by (rule set_mono_prefix)
      then have q: "\<forall>e\<in>set py. \<not> counter_sub e" using quietA by blast
      have "released py = 0" unfolding released_def by (rule tally_no_mark) (use q in blast)
      moreover have "sub_sum py = 0" by (rule sub_sum_zero) (use q in blast)
      ultimately show ?thesis by simp
    next
      case inB
      show ?thesis unfolding inB(1) relB [OF inB(2)] subB [OF inB(2)] by (rule h)
    qed
  qed
  have "completed B = 0" by (rule completed_zero) (use quietB in blast)
  then have "completed (completion_events run) = completed hs"
    unfolding split using cmpA ms(6) by (simp add: completed_append) (simp add: completed_def)
  then have fin: "released (completion_events run) = completed (completion_events run)"
    unfolding split using relB [of B] by simp
  show ?thesis unfolding cmp_thread_def using ev pre fin by blast
qed

lemma deq_thread_Nil: "deq_thread []"
  by (simp add: deq_thread_def counted_def published_def tally_def add_sum_simps admitted_def)

lemma cmp_thread_Nil: "cmp_thread []"
  by (simp add: cmp_thread_def released_def tally_def sub_sum_simps completed_def)

lemma deq_thread_append:
  assumes "deq_thread a" "deq_thread b"
  shows "deq_thread (a @ b)"
proof -
  have ca: "counted a = admitted a" "published a = admitted a"
    using assms(1) by (simp_all add: deq_thread_def)
  have cb: "counted b = admitted b" "published b = admitted b"
    using assms(2) by (simp_all add: deq_thread_def)
  have sa: "int32 (add_sum a) = int32 (counted a)"
    using assms(1) unfolding deq_thread_def by blast
  have capp: "counted (a @ p') = counted a + counted p'" for p'
    unfolding counted_def
    by (rule tally_append [OF mark_not_counted(1)])
       (use ca(1) in \<open>simp add: counted_def admitted_def\<close>)
  have papp: "published (a @ p') = published a + published p'" for p'
    unfolding published_def
    by (rule tally_append [OF mark_not_counted(2)])
       (use ca(2) in \<open>simp add: published_def admitted_def\<close>)
  have pre: "published px \<le> counted px \<and> int32 (add_sum px) = int32 (counted px)"
    if "prefix px (a @ b)" for px
  proof -
    from that consider "prefix px a" | p' where "px = a @ p'" "prefix p' b"
      unfolding prefix_append by blast
    then show ?thesis
    proof cases
      case 1
      then show ?thesis using assms(1) unfolding deq_thread_def by blast
    next
      case 2
      have b: "published p' \<le> counted p'" "int32 (add_sum p') = int32 (counted p')"
        using assms(2) 2(2) unfolding deq_thread_def by blast+
      have "int32 (add_sum a + add_sum p') = int32 (counted a + counted p')"
        by (rule int32_eq_add [OF sa b(2)])
      then show ?thesis unfolding 2(1) capp papp add_sum_simps using b(1) ca by simp
    qed
  qed
  have ev: "\<forall>e\<in>set (a @ b). \<not> handles e \<and> \<not> counter_sub e"
    using assms unfolding deq_thread_def by auto
  have fin: "counted (a @ b) = admitted (a @ b)" "published (a @ b) = admitted (a @ b)"
    unfolding capp papp admitted_append using ca cb by simp_all
  show ?thesis unfolding deq_thread_def using ev pre fin by blast
qed

lemma cmp_thread_append:
  assumes "cmp_thread a" "cmp_thread b"
  shows "cmp_thread (a @ b)"
proof -
  have ra: "released a = completed a" using assms(1) by (simp add: cmp_thread_def)
  have rb: "released b = completed b" using assms(2) by (simp add: cmp_thread_def)
  have sa: "int32 (sub_sum a) = int32 (released a)"
    using assms(1) unfolding cmp_thread_def by blast
  have rapp: "released (a @ p') = released a + released p'" for p'
    unfolding released_def
    by (rule tally_append [OF mark_not_counted(3)])
       (use ra in \<open>simp add: released_def completed_def\<close>)
  have pre: "int32 (sub_sum py) = int32 (released py)" if "prefix py (a @ b)" for py
  proof -
    from that consider "prefix py a" | p' where "py = a @ p'" "prefix p' b"
      unfolding prefix_append by blast
    then show ?thesis
    proof cases
      case 1
      then show ?thesis using assms(1) unfolding cmp_thread_def by blast
    next
      case 2
      have b: "int32 (sub_sum p') = int32 (released p')"
        using assms(2) 2(2) unfolding cmp_thread_def by blast
      show ?thesis unfolding 2(1) rapp sub_sum_simps by (rule int32_eq_add [OF sa b])
    qed
  qed
  have ev: "\<forall>e\<in>set (a @ b). \<not> admits e \<and> \<not> counter_add e \<and> \<not> publishes e"
    using assms unfolding cmp_thread_def by auto
  have fin: "released (a @ b) = completed (a @ b)"
    unfolding rapp completed_append using ra rb by simp
  show ?thesis unfolding cmp_thread_def using ev pre fin by blast
qed

lemma deq_thread_runs: "deq_thread (concat (map dequeue_events druns))"
  by (induction druns) (simp_all add: deq_thread_Nil deq_thread_append deq_thread_run)

lemma cmp_thread_runs: "cmp_thread (concat (map completion_events cruns))"
  by (induction cruns) (simp_all add: cmp_thread_Nil cmp_thread_append cmp_thread_run)

subsection \<open>The counter and the outstanding results\<close>

lemma counter_single:
  assumes "\<forall>e\<in>set pre \<union> set post. \<not> counter_add e \<and> \<not> counter_sub e"
    and "counter_add e \<or> counter_sub e"
  shows "counter_after c (pre @ [e] @ post) = int32 (c + added e - removed e)"
proof -
  have q: "\<forall>e\<in>set xs. \<not> counter_add e \<and> \<not> counter_sub e \<Longrightarrow> foldl counter_step u xs = u"
    for xs :: "'a event list" and u
    by (rule fold_neutral) (simp add: counter_step_amounts)
  have "foldl counter_step c pre = c" by (rule q) (use assms(1) in blast)
  moreover have "foldl counter_step u post = u" for u by (rule q) (use assms(1) in blast)
  ultimately show ?thesis
    unfolding counter_after_def using assms(2) by (simp add: counter_step_amounts)
qed

lemma demo_dequeue_events:
  "concat (map dequeue_events demo_druns) =
     [Writel 0x800000 RDR_THRESH, SendCall 1 0 1 1, SendCall 2 0 1 1,
      Writel 128 CDR_PREP_COUNT, RequestsAdd 2, Writel 128 RDR_PREP_COUNT,
      Writel 0x800002 RDR_THRESH,
      Writel 0x800000 RDR_THRESH, SendCall 3 0 1 1, Writel 64 CDR_PREP_COUNT, RequestsAdd 1,
      Writel 64 RDR_PREP_COUNT, Writel 0x800003 RDR_THRESH]"
  by code_simp

lemma demo_completion_events:
  "concat (map completion_events demo_cruns) =
     [HandleResult 1 1 True 0, ReqComplete 1 0, HandleResult 2 1 True 0, ReqComplete 2 0,
      Writel 0x2000080 RDR_PROC_COUNT, RequestsSub 2, Writel 0xff RDR_STAT]"
  by code_simp

lemma demo_interleaving:
  "demo_trace \<in> shuffles (concat (map dequeue_events demo_druns))
                         (concat (map completion_events demo_cruns))"
  unfolding demo_dequeue_events demo_completion_events demo_trace_def demo_point_def append.simps
  by (intro Cons_in_shuffles_leftI Cons_in_shuffles_rightI) simp

lemma demo_values:
  "in_flight 0 demo_point = 3" "outstanding 0 demo_point = 0"
  "in_flight 0 demo_trace = 1" "outstanding 0 demo_trace = 1"
  "admitted demo_trace = 3" "completed demo_trace = 2"
  "counter_after 0 demo_point = 3" "counter_after 0 demo_trace = 1"
  by code_simp+

lemma interleaving_point:
  assumes d: "deq_thread dq" and c: "cmp_thread cp"
    and px: "prefix px dq" and py: "prefix py cp" and p: "p \<in> shuffles px py"
  shows "counted p = counted px" "published p = published px" "released p = released py"
    "completed p = completed py" "admitted p = admitted px"
    "add_sum p = add_sum px" "sub_sum p = sub_sum py"
proof -
  have sx: "set px \<subseteq> set dq" using px by (rule set_mono_prefix)
  have sy: "set py \<subseteq> set cp" using py by (rule set_mono_prefix)
  have qx: "\<forall>e\<in>set px. \<not> handles e \<and> \<not> counter_sub e"
    using d sx unfolding deq_thread_def by blast
  have qy: "\<forall>e\<in>set py. \<not> admits e \<and> \<not> counter_add e \<and> \<not> publishes e"
    using c sy unfolding cmp_thread_def by blast
  have p': "p \<in> shuffles py px" using p by (simp only: shuffles_commutes)
  show "counted p = counted px" unfolding counted_def
    by (rule shuffles_tally [OF p]) (use qy in blast)
  show "published p = published px" unfolding published_def
    by (rule shuffles_tally [OF p]) (use qy in blast)
  show "released p = released py" unfolding released_def
    by (rule shuffles_tally [OF p']) (use qx in blast)
  have "completed px = 0" by (rule completed_zero) (use qx in blast)
  then show "completed p = completed py"
    using shuffles_count [OF p, of handles] by (simp add: completed_def)
  have "admitted py = 0" by (rule admitted_zero) (use qy in blast)
  then show "admitted p = admitted px"
    using shuffles_count [OF p, of admits] by (simp add: admitted_def)
  have "add_sum py = 0" by (rule add_sum_zero) (use qy in blast)
  then show "add_sum p = add_sum px"
    using shuffles_sum [OF p, of added] by (simp add: add_sum_def)
  have "sub_sum px = 0" by (rule sub_sum_zero) (use qx in blast)
  then show "sub_sum p = sub_sum py"
    using shuffles_sum [OF p, of removed] by (simp add: sub_sum_def)
qed

lemma interleaving_prefix:
  assumes t: "t \<in> shuffles dq cp" and d: "deq_thread dq" and c: "cmp_thread cp"
    and c0: "- (2 ^ 31) \<le> c0" "c0 < 2 ^ 31" and p: "prefix p t"
  shows "counter_after c0 p = int32 (in_flight c0 p)" "outstanding c0 p \<le> in_flight c0 p"
proof -
  from shuffles_prefix [OF t p] obtain px py where
    px: "prefix px dq" and py: "prefix py cp" and sh: "p \<in> shuffles px py" by blast
  note e = interleaving_point [OF d c px py sh]
  have dx: "published px \<le> counted px" "int32 (add_sum px) = int32 (counted px)"
    using d px unfolding deq_thread_def by blast+
  have cy: "int32 (sub_sum py) = int32 (released py)"
    using c py unfolding cmp_thread_def by blast
  have le: "released py \<le> completed py"
    unfolding released_def completed_def by (rule tally_le [OF mark_not_counted(3)])
  have "counter_after c0 p = int32 (c0 + add_sum px - sub_sum py)"
    unfolding counter_after_def
    using counter_fold [OF int32_id [OF c0], of p] by (simp only: e)
  also have "\<dots> = int32 ((c0 + counted px) - released py)"
    by (rule int32_eq_diff [OF int32_eq_add [OF refl dx(2)] cy])
  finally show "counter_after c0 p = int32 (in_flight c0 p)"
    unfolding in_flight_def e by simp
  show "outstanding c0 p \<le> in_flight c0 p"
    unfolding in_flight_def outstanding_def e using dx(1) le by simp
qed

lemma interleaving_quiescent:
  assumes d: "deq_thread dq" and c: "cmp_thread cp" and p: "p \<in> shuffles dq cp"
  shows "in_flight c0 p = c0 + admitted p - completed p" "outstanding c0 p = in_flight c0 p"
proof -
  note e = interleaving_point [OF d c prefix_order.order_refl prefix_order.order_refl p]
  have dq: "counted dq = admitted dq" "published dq = admitted dq"
    using d unfolding deq_thread_def by blast+
  have cp: "released cp = completed cp" using c unfolding cmp_thread_def by blast
  show "in_flight c0 p = c0 + admitted p - completed p"
    unfolding in_flight_def e dq cp ..
  show "outstanding c0 p = in_flight c0 p"
    unfolding in_flight_def outstanding_def e dq cp ..
qed

lemma dequeue_run_order:
  "\<exists>pre n v post.
     dequeue_events run = pre @ [RequestsAdd n, Writel v RDR_PREP_COUNT] @ post \<and>
     int32 n = int32 (admitted pre) \<and>
     (\<forall>e\<in>set pre \<union> set post. \<not> counter_add e \<and> \<not> publishes e \<and> \<not> counter_sub e) \<and>
     (\<forall>e\<in>set post. \<not> admits e) \<and>
     (\<forall>cfg send rg q s. run = (cfg, send, rg, q, s) \<longrightarrow>
        requests (fst (safexcel_dequeue cfg send rg q s)) =
          counter_after (requests rg) (dequeue_events run))"
proof -
  from dequeue_events_shape [of run] obtain evs v1 v2 post where
    tr: "dequeue_events run =
       Writel EIP197_HIA_RDR_THRESH_PKT_MODE RDR_THRESH # evs @
         [Writel v1 CDR_PREP_COUNT, RequestsAdd (int32 (admitted evs)),
          Writel v2 RDR_PREP_COUNT] @ post"
    and ce: "\<forall>e\<in>set evs. call_event e"
    and post: "post = [] \<or> (\<exists>v. post = [Writel v RDR_THRESH])"
    and rq: "\<forall>cfg send rg q s. run = (cfg, send, rg, q, s) \<longrightarrow>
        requests (fst (safexcel_dequeue cfg send rg q s)) =
          int32 (requests rg + admitted evs)"
    by blast
  define pre where
    "pre = Writel EIP197_HIA_RDR_THRESH_PKT_MODE RDR_THRESH # evs @ [Writel v1 CDR_PREP_COUNT]"
  have split: "dequeue_events run =
      pre @ [RequestsAdd (int32 (admitted evs)), Writel v2 RDR_PREP_COUNT] @ post"
    unfolding tr pre_def by simp
  have qpre: "\<forall>e\<in>set pre. \<not> counter_add e \<and> \<not> publishes e \<and> \<not> counter_sub e"
  proof
    fix e assume "e \<in> set pre"
    then consider "e = Writel EIP197_HIA_RDR_THRESH_PKT_MODE RDR_THRESH" | "e \<in> set evs"
      | "e = Writel v1 CDR_PREP_COUNT"
      unfolding pre_def by auto
    then show "\<not> counter_add e \<and> \<not> publishes e \<and> \<not> counter_sub e"
    proof cases
      case 2
      then have "call_event e" using ce by blast
      then show ?thesis by (cases e) simp_all
    qed simp_all
  qed
  have qpost: "\<forall>e\<in>set post. \<not> counter_add e \<and> \<not> publishes e \<and> \<not> counter_sub e \<and> \<not> admits e"
    using post by auto
  have adm: "admitted pre = admitted evs" unfolding pre_def admitted_def by simp
  have n: "int32 (int32 (admitted evs)) = int32 (admitted pre)"
    unfolding adm by (rule int32_idem)
  have q1: "\<forall>e\<in>set pre \<union> set post. \<not> counter_add e \<and> \<not> publishes e \<and> \<not> counter_sub e"
    using qpre qpost by blast
  have q2: "\<forall>e\<in>set post. \<not> admits e" using qpost by blast
  have q3: "\<forall>e\<in>set pre \<union> set (Writel v2 RDR_PREP_COUNT # post).
      \<not> counter_add e \<and> \<not> counter_sub e"
    using qpre qpost by auto
  have ca: "counter_after c (dequeue_events run) = int32 (c + admitted evs)" for c
  proof -
    have "counter_after c (pre @ [RequestsAdd (int32 (admitted evs))] @
            (Writel v2 RDR_PREP_COUNT # post)) =
          int32 (c + added (RequestsAdd (int32 (admitted evs))) -
                 removed (RequestsAdd (int32 (admitted evs))))"
      using counter_single [OF q3, of "RequestsAdd (int32 (admitted evs))" c] by simp
    then show ?thesis unfolding split by (simp add: int32_add_right)
  qed
  have link: "\<forall>cfg send rg q s. run = (cfg, send, rg, q, s) \<longrightarrow>
        requests (fst (safexcel_dequeue cfg send rg q s)) =
          counter_after (requests rg) (dequeue_events run)"
    unfolding ca by (rule rq)
  show ?thesis
    apply (rule exI [of _ pre])
    apply (rule exI [of _ "int32 (admitted evs)"])
    apply (rule exI [of _ v2])
    apply (rule exI [of _ post])
    using split n q1 q2 link by (intro conjI)
qed

lemma completion_run_order:
  "\<exists>pre n post.
     completion_events run = pre @ [RequestsSub n] @ post \<and>
     int32 n = int32 (completed pre) \<and>
     (\<forall>e\<in>set pre \<union> set post. \<not> counter_sub e \<and> \<not> counter_add e) \<and>
     (\<forall>e\<in>set post. \<not> handles e) \<and>
     (\<forall>cfg rg stat results scans. run = (cfg, rg, stat, results, scans) \<longrightarrow>
        requests (fst (safexcel_handle_result_descriptor cfg rg stat results scans)) =
          counter_after (requests rg) (completion_events run))"
proof -
  from completion_events_shape [of run] obtain hs acks h post where
    tr: "completion_events run = hs @ acks @ [RequestsSub h, Writel 0xff RDR_STAT] @ post"
    and h: "int32 h = int32 (completed hs)"
    and he: "\<forall>e\<in>set hs. result_event e"
    and ae: "\<forall>e\<in>set acks. proc_ack e"
    and post: "post = [] \<or> (\<exists>v. post = [Writel v RDR_THRESH])"
    and rq: "\<forall>cfg rg stat results scans. run = (cfg, rg, stat, results, scans) \<longrightarrow>
        requests (fst (safexcel_handle_result_descriptor cfg rg stat results scans)) =
          int32 (requests rg - h)"
    by blast
  define pre where "pre = hs @ acks"
  define pst where "pst = Writel 0xff RDR_STAT # post"
  have split: "completion_events run = pre @ [RequestsSub h] @ pst"
    unfolding tr pre_def pst_def by simp
  have qpre: "\<forall>e\<in>set pre. \<not> counter_sub e \<and> \<not> counter_add e"
  proof
    fix e assume "e \<in> set pre"
    then consider "e \<in> set hs" | "e \<in> set acks" unfolding pre_def by auto
    then show "\<not> counter_sub e \<and> \<not> counter_add e"
    proof cases
      case 1
      then have "result_event e" using he by blast
      then show ?thesis by (cases e) simp_all
    next
      case 2
      then have "proc_ack e" using ae by blast
      then show ?thesis by (cases e) simp_all
    qed
  qed
  have qpst: "\<forall>e\<in>set pst. \<not> counter_sub e \<and> \<not> counter_add e \<and> \<not> handles e"
    unfolding pst_def using post by auto
  have "\<forall>e\<in>set acks. \<not> handles e"
  proof
    fix e assume "e \<in> set acks"
    then have "proc_ack e" using ae by blast
    then show "\<not> handles e" by (cases e) simp_all
  qed
  then have "completed acks = 0" by (rule completed_zero)
  then have cmp: "completed pre = completed hs"
    unfolding pre_def by (simp add: completed_append)
  have n: "int32 h = int32 (completed pre)" unfolding cmp by (rule h)
  have q1: "\<forall>e\<in>set pre \<union> set pst. \<not> counter_sub e \<and> \<not> counter_add e"
    using qpre qpst by blast
  have q2: "\<forall>e\<in>set pst. \<not> handles e" using qpst by blast
  have q3: "\<forall>e\<in>set pre \<union> set pst. \<not> counter_add e \<and> \<not> counter_sub e"
    using q1 by blast
  have ca: "counter_after c (completion_events run) = int32 (c - h)" for c
  proof -
    have "counter_after c (pre @ [RequestsSub h] @ pst) =
          int32 (c + added (RequestsSub h) - removed (RequestsSub h))"
      using counter_single [OF q3, of "RequestsSub h" c] by simp
    then show ?thesis unfolding split by simp
  qed
  have link: "\<forall>cfg rg stat results scans. run = (cfg, rg, stat, results, scans) \<longrightarrow>
        requests (fst (safexcel_handle_result_descriptor cfg rg stat results scans)) =
          counter_after (requests rg) (completion_events run)"
    unfolding ca by (rule rq)
  show ?thesis
    apply (rule exI [of _ pre])
    apply (rule exI [of _ h])
    apply (rule exI [of _ pst])
    using split n q1 q2 link by (intro conjI)
qed

text \<open>
  C3. The dequeue runs of a ring follow one another, and so do its completion runs; the
  events of the two threads interleave in any way. From a counter \<open>c0\<close> that counts the
  requests in flight at the start, at every point of every interleaving the counter is,
  as an \<^verbatim>\<open>int\<close>, the number of requests in flight: those admitted before the last
  \<^verbatim>\<open>requests += nreq\<close>, less the results handled before the last
  \<^verbatim>\<open>requests -= handled\<close>; and the outstanding results (requests whose result
  descriptors are published to the device, less the results handled) are never more than
  that, so that, while the number fits an \<^verbatim>\<open>int\<close>, the counter is not zero with a result
  outstanding. At a quiescent point, where both threads are between runs, the number in
  flight is \<open>c0\<close> plus the requests admitted less the results handled, and all of them are
  outstanding. In the events of a dequeue run the counter is incremented once, by the
  number of requests the run admitted, directly before the one write that publishes
  their result descriptors; in the events of a completion run it is decremented once, by
  the number of results the run handled, after all of them are handled; and the counter
  that a run leaves in the ring is the one read along its events.
\<close>

theorem inflight_counter_accounting:
  assumes "t \<in> shuffles (concat (map dequeue_events druns))
                        (concat (map completion_events cruns))"
    and "- (2 ^ 31) \<le> c0" "c0 < 2 ^ 31"
  shows "(\<forall>p. prefix p t \<longrightarrow>
            counter_after c0 p = int32 (in_flight c0 p) \<and>
            outstanding c0 p \<le> in_flight c0 p \<and>
            (- (2 ^ 31) \<le> in_flight c0 p \<and> in_flight c0 p < 2 ^ 31 \<longrightarrow>
               counter_after c0 p = in_flight c0 p \<and>
               (counter_after c0 p = 0 \<longrightarrow> outstanding c0 p \<le> 0))) \<and>
         (\<forall>k m p. prefix p t \<and>
                  p \<in> shuffles (concat (map dequeue_events (take k druns)))
                               (concat (map completion_events (take m cruns))) \<longrightarrow>
            in_flight c0 p = c0 + admitted p - completed p \<and>
            outstanding c0 p = in_flight c0 p) \<and>
         (\<forall>run\<in>set druns. \<exists>pre n v post.
            dequeue_events run = pre @ [RequestsAdd n, Writel v RDR_PREP_COUNT] @ post \<and>
            int32 n = int32 (admitted pre) \<and>
            (\<forall>e\<in>set pre \<union> set post. \<not> counter_add e \<and> \<not> publishes e \<and> \<not> counter_sub e) \<and>
            (\<forall>e\<in>set post. \<not> admits e) \<and>
            (\<forall>cfg send rg q s. run = (cfg, send, rg, q, s) \<longrightarrow>
               requests (fst (safexcel_dequeue cfg send rg q s)) =
                 counter_after (requests rg) (dequeue_events run))) \<and>
         (\<forall>run\<in>set cruns. \<exists>pre n post.
            completion_events run = pre @ [RequestsSub n] @ post \<and>
            int32 n = int32 (completed pre) \<and>
            (\<forall>e\<in>set pre \<union> set post. \<not> counter_sub e \<and> \<not> counter_add e) \<and>
            (\<forall>e\<in>set post. \<not> handles e) \<and>
            (\<forall>cfg rg stat results scans. run = (cfg, rg, stat, results, scans) \<longrightarrow>
               requests (fst (safexcel_handle_result_descriptor cfg rg stat results scans)) =
                 counter_after (requests rg) (completion_events run)))"
proof (intro conjI allI impI ballI)
  fix p assume p: "prefix p t"
  note i = interleaving_prefix [OF assms(1) deq_thread_runs cmp_thread_runs assms(2,3) p]
  show "counter_after c0 p = int32 (in_flight c0 p)" by (rule i(1))
  show "outstanding c0 p \<le> in_flight c0 p" by (rule i(2))
  assume r: "- (2 ^ 31) \<le> in_flight c0 p \<and> in_flight c0 p < 2 ^ 31"
  then have "int32 (in_flight c0 p) = in_flight c0 p" by (intro int32_id) simp_all
  then show eq: "counter_after c0 p = in_flight c0 p" using i(1) by simp
  assume "counter_after c0 p = 0"
  then show "outstanding c0 p \<le> 0" using eq i(2) by simp
next
  fix k m p
  assume "prefix p t \<and>
          p \<in> shuffles (concat (map dequeue_events (take k druns)))
                       (concat (map completion_events (take m cruns)))"
  then have sh: "p \<in> shuffles (concat (map dequeue_events (take k druns)))
                       (concat (map completion_events (take m cruns)))" by simp
  note q = interleaving_quiescent [OF deq_thread_runs cmp_thread_runs sh]
  show "in_flight c0 p = c0 + admitted p - completed p" by (rule q(1))
  show "outstanding c0 p = in_flight c0 p" by (rule q(2))
next
  fix run assume "run \<in> set druns"
  show "\<exists>pre n v post.
            dequeue_events run = pre @ [RequestsAdd n, Writel v RDR_PREP_COUNT] @ post \<and>
            int32 n = int32 (admitted pre) \<and>
            (\<forall>e\<in>set pre \<union> set post. \<not> counter_add e \<and> \<not> publishes e \<and> \<not> counter_sub e) \<and>
            (\<forall>e\<in>set post. \<not> admits e) \<and>
            (\<forall>cfg send rg q s. run = (cfg, send, rg, q, s) \<longrightarrow>
               requests (fst (safexcel_dequeue cfg send rg q s)) =
                 counter_after (requests rg) (dequeue_events run))"
    by (rule dequeue_run_order)
next
  fix run assume "run \<in> set cruns"
  show "\<exists>pre n post.
            completion_events run = pre @ [RequestsSub n] @ post \<and>
            int32 n = int32 (completed pre) \<and>
            (\<forall>e\<in>set pre \<union> set post. \<not> counter_sub e \<and> \<not> counter_add e) \<and>
            (\<forall>e\<in>set post. \<not> handles e) \<and>
            (\<forall>cfg rg stat results scans. run = (cfg, rg, stat, results, scans) \<longrightarrow>
               requests (fst (safexcel_handle_result_descriptor cfg rg stat results scans)) =
                 counter_after (requests rg) (completion_events run))"
    by (rule completion_run_order)
qed

theorem inflight_counter_accounting_witness:
  "prefix demo_point demo_trace \<and>
   counter_after 0 demo_point = 3 \<and> in_flight 0 demo_point = 3 \<and>
   outstanding 0 demo_point \<le> in_flight 0 demo_point \<and> outstanding 0 demo_point = 0 \<and>
   in_flight 0 demo_trace = 0 + admitted demo_trace - completed demo_trace \<and>
   outstanding 0 demo_trace = in_flight 0 demo_trace \<and>
   counter_after 0 demo_trace = 1 \<and> admitted demo_trace = 3 \<and> completed demo_trace = 2"
proof -
  have r: "- (2 ^ 31) \<le> (0 :: int)" "(0 :: int) < 2 ^ 31" by simp_all
  note t = inflight_counter_accounting [OF demo_interleaving r]
  have pp: "prefix demo_point demo_trace" by (simp add: demo_trace_def)
  note a = t [THEN conjunct1, rule_format, OF pp]
  have ir: "- (2 ^ 31) \<le> in_flight 0 demo_point \<and> in_flight 0 demo_point < 2 ^ 31"
    by (simp add: demo_values)
  have c: "counter_after 0 demo_point = in_flight 0 demo_point"
    by (rule a [THEN conjunct2, THEN conjunct2, rule_format, OF ir, THEN conjunct1])
  have le: "outstanding 0 demo_point \<le> in_flight 0 demo_point"
    by (rule a [THEN conjunct2, THEN conjunct1])
  have tk: "take 2 demo_druns = demo_druns" "take 1 demo_cruns = demo_cruns"
    by (simp_all add: demo_druns_def demo_cruns_def)
  have q: "prefix demo_trace demo_trace \<and>
      demo_trace \<in> shuffles (concat (map dequeue_events (take 2 demo_druns)))
                            (concat (map completion_events (take 1 demo_cruns)))"
    unfolding tk using demo_interleaving by simp
  note b = t [THEN conjunct2, THEN conjunct1, rule_format, OF q]
  have ir2: "- (2 ^ 31) \<le> in_flight 0 demo_trace \<and> in_flight 0 demo_trace < 2 ^ 31"
    by (simp add: demo_values)
  have pt: "prefix demo_trace demo_trace" by simp
  have c2: "counter_after 0 demo_trace = in_flight 0 demo_trace"
    by (rule t [THEN conjunct1, rule_format, OF pt, THEN conjunct2, THEN conjunct2,
          rule_format, OF ir2, THEN conjunct1])
  show ?thesis
    using pp c le b c2 by (simp add: demo_values)
qed

end
